theory Spec2Isabelle
  imports Complex_Main "HOL-Library.Multiset" "HOL-Library.Log_Nat"
begin

section \<open>Data model of \<^verbatim>\<open>main.py\<close>\<close>

text \<open>
  \<^verbatim>\<open>class Colour(Enum)\<close>: the three colours of the board.  While
  \<^verbatim>\<open>Guess.create_from_word\<close> runs, a colour field may also hold Python's \<^verbatim>\<open>None\<close>
  ("we don't know if this char is yellow or grey yet"), so the field of the dataclass
  \<^verbatim>\<open>Char\<close> is a \<open>Colour option\<close>.
\<close>

datatype Colour = GREY | YELLOW | GREEN

record Char =
  letter :: char
  colour :: "Colour option"

record Guess =
  chars :: "Char list"

section \<open>The evaluator: \<^verbatim>\<open>Guess.create_from_word\<close>\<close>

text \<open>
  First loop (lines 129-138), one \<^verbatim>\<open>Char\<close> per pair of \<^verbatim>\<open>zip(word, solution)\<close>;
  \<^verbatim>\<open>zip\<close> stops at the shorter of the two strings.
\<close>

definition first_colour :: "string \<Rightarrow> char \<Rightarrow> char \<Rightarrow> Colour option" where
  "first_colour solution ch solution_char =
     (if ch = solution_char then Some GREEN
      else if ch \<notin> set solution then Some GREY
      else None)"

definition first_pass :: "string \<Rightarrow> string \<Rightarrow> Char list" where
  "first_pass word solution =
     map (\<lambda>(ch, solution_char).
            \<lparr>letter = ch, colour = first_colour solution ch solution_char\<rparr>)
         (zip word solution)"

text \<open>
  Second loop (lines 141-160).  \<^verbatim>\<open>num_instances_recognised_so_far\<close> counts over the
  whole list \<^verbatim>\<open>chars\<close> as it stands when position \<open>i\<close> is reached; the loop body then
  writes the colour of the object at position \<open>i\<close>.
\<close>

definition num_instances_recognised_so_far :: "Char list \<Rightarrow> char \<Rightarrow> nat" where
  "num_instances_recognised_so_far cs l =
     length (filter (\<lambda>other_char. letter other_char = l
                       \<and> colour other_char \<in> {Some GREEN, Some YELLOW}) cs)"

text \<open>The predicate counted by \<^verbatim>\<open>num_instances_recognised_so_far\<close>.\<close>

definition recognised :: "char \<Rightarrow> Char \<Rightarrow> bool" where
  "recognised l other_char \<longleftrightarrow>
     letter other_char = l \<and> colour other_char \<in> {Some GREEN, Some YELLOW}"

definition process_remaining :: "string \<Rightarrow> nat \<Rightarrow> Char list \<Rightarrow> Char list" where
  "process_remaining solution i cs =
     (let ch = cs ! i in
      if colour ch \<noteq> None then cs
      else
        let num_instances_in_solution = count_list solution (letter ch);
            should_be_yellow =
              (num_instances_recognised_so_far cs (letter ch) < num_instances_in_solution)
        in cs[i := ch\<lparr>colour := Some (if should_be_yellow then YELLOW else GREY)\<rparr>])"

definition second_pass :: "string \<Rightarrow> Char list \<Rightarrow> Char list" where
  "second_pass solution cs = fold (process_remaining solution) [0..<length cs] cs"

definition create_from_word :: "string \<Rightarrow> string \<Rightarrow> Guess" where
  "create_from_word word solution =
     \<lparr>chars = second_pass solution (first_pass word solution)\<rparr>"

definition is_correct :: "Guess \<Rightarrow> bool" where
  "is_correct g = list_all (\<lambda>ch. colour ch = Some GREEN) (chars g)"

section \<open>Exceptions\<close>

text \<open>
  The program signals every failure of its own with \<^verbatim>\<open>ValueError\<close>; the constructor
  argument records which \<^verbatim>\<open>raise\<close> (or which builtin) it came from.  \<^verbatim>\<open>IndexError\<close>
  and \<^verbatim>\<open>KeyError\<close> come from string indexing and dictionary lookup.
\<close>

datatype reason =
    ExceededMaxGuesses  \<comment> \<open>\<^verbatim>\<open>exceeded max number of guesses\<close>, line 194\<close>
  | WordLength          \<comment> \<open>\<^verbatim>\<open>Word ... is not 5 chars long.\<close>, line 197\<close>
  | UnknownCharacters   \<comment> \<open>\<^verbatim>\<open>word ... has unknown characters\<close>, line 204\<close>
  | UnexpectedColour    \<comment> \<open>\<^verbatim>\<open>Unexpected colour\<close>, line 391\<close>
  | EmptySequence       \<comment> \<open>\<^verbatim>\<open>max() arg is an empty sequence\<close>, raised by \<^verbatim>\<open>max\<close> at line 306\<close>

datatype error = ValueError reason | IndexError | KeyError

section \<open>The puzzle: \<^verbatim>\<open>class Puzzle\<close>\<close>

record Puzzle =
  solution :: string
  guesses :: "Guess list"

definition MAX_NUM_GUESSES :: nat where
  "MAX_NUM_GUESSES = 6"

definition WORD_LENGTH :: nat where
  "WORD_LENGTH = 5"

definition ALL_CHARS :: "char set" where
  "ALL_CHARS = set ''abcdefghijklmnopqrstuvwxyz''"

text \<open>
  \<^verbatim>\<open>str.lower\<close> on the characters a \<open>string\<close> of HOL can hold one per element: the
  ASCII capitals move to their small letters, everything else stays.
\<close>

definition lower_char :: "char \<Rightarrow> char" where
  "lower_char ch =
     (let n = (of_char ch :: nat)
      in if 65 \<le> n \<and> n \<le> 90 then char_of (n + 32) else ch)"

definition lower :: "string \<Rightarrow> string" where
  "lower word = map lower_char word"

text \<open>
  \<^verbatim>\<open>Puzzle.enter_word\<close>: the method appends to \<^verbatim>\<open>self.guesses\<close>, so the model returns
  the outcome (the exception raised, or the guess returned) together with the puzzle as the
  call leaves it.
\<close>

definition enter_word :: "Puzzle \<Rightarrow> string \<Rightarrow> (error + Guess) \<times> Puzzle" where
  "enter_word p word =
     (if length (guesses p) \<ge> MAX_NUM_GUESSES then (Inl (ValueError ExceededMaxGuesses), p)
      else if length word \<noteq> WORD_LENGTH then (Inl (ValueError WordLength), p)
      else
        let word' = lower word;
            unknown_chars = set word' - ALL_CHARS
        in if unknown_chars \<noteq> {} then (Inl (ValueError UnknownCharacters), p)
           else
             let guess = create_from_word word' (solution p)
             in (Inr guess, p\<lparr>guesses := guesses p @ [guess]\<rparr>))"

definition won :: "Puzzle \<Rightarrow> bool" where
  "won p = (if guesses p = [] then False else is_correct (last (guesses p)))"

definition is_in_progress :: "Puzzle \<Rightarrow> bool" where
  "is_in_progress p = (if won p then False else length (guesses p) < MAX_NUM_GUESSES)"

section \<open>Constraints: \<^verbatim>\<open>class Constraint\<close>\<close>

datatype ConstraintType = IN_SOME_POSITION | NOT_IN_POSITIONS

text \<open>
  \<^verbatim>\<open>positions\<close> is a Python set of integers.  \<^verbatim>\<open>is_satisfied\<close> iterates over it with
  a short-circuiting \<^verbatim>\<open>any\<close> whose body can raise, so the order of iteration shows in the
  result; the field is therefore the list of the set's elements in iteration order.
\<close>

record Constraint =
  char :: char
  positions :: "int list"
  type :: ConstraintType

text \<open>\<^verbatim>\<open>word[position]\<close>: a negative index counts from the end, anything out of range raises.\<close>

definition getitem :: "string \<Rightarrow> int \<Rightarrow> error + char" where
  "getitem word position =
     (let n = int (length word);
          j = (if position < 0 then n + position else position)
      in if 0 \<le> j \<and> j < n then Inr (word ! nat j) else Inl IndexError)"

text \<open>\<^verbatim>\<open>any(word[position] == self.char for position in self.positions)\<close>\<close>

fun char_is_in_some_position :: "string \<Rightarrow> char \<Rightarrow> int list \<Rightarrow> error + bool" where
  "char_is_in_some_position word c [] = Inr False"
| "char_is_in_some_position word c (position # rest) =
     (case getitem word position of
        Inl e \<Rightarrow> Inl e
      | Inr x \<Rightarrow> if x = c then Inr True else char_is_in_some_position word c rest)"

definition is_satisfied :: "Constraint \<Rightarrow> string \<Rightarrow> error + bool" where
  "is_satisfied k word =
     (case char_is_in_some_position word (char k) (positions k) of
        Inl e \<Rightarrow> Inl e
      | Inr b \<Rightarrow> (case type k of
                    IN_SOME_POSITION \<Rightarrow> Inr b
                  | NOT_IN_POSITIONS \<Rightarrow> Inr (\<not> b)))"

section \<open>The candidate selector: \<^verbatim>\<open>get_frequency_score\<close>, \<^verbatim>\<open>get_word_to_guess\<close>\<close>

subsection \<open>Python floats\<close>

text \<open>
  A Python float is an IEEE 754 double.  This program only adds non-negative ones, and the
  model holds those: a double is its mantissa times two to its exponent, with a mantissa
  of exactly 53 bits, or 0 with exponent 0 for zero.  The exponent is an integer without
  bounds: the weights are between 0.002 and 0.11 and a score adds at most 26 of them, far
  from the range where doubles overflow or lose precision.
\<close>

datatype double = Double (mantissa: int) (exponent: int)

definition value_of :: "double \<Rightarrow> rat" where
  "value_of x = of_int (mantissa x) * 2 powi exponent x"

text \<open>
  The integer nearest to \<open>num / den\<close>, the even one of two that are equally near; and
  the double nearest to \<open>m * 2 ^ e\<close> (round to nearest, ties to even, the rounding of
  every float operation of Python).
\<close>

definition nearest_even :: "int \<Rightarrow> int \<Rightarrow> int" where
  "nearest_even num den =
     (let q = num div den; r = num mod den
      in if 2 * r < den then q else if den < 2 * r then q + 1 else if even q then q else q + 1)"

definition round53 :: "int \<Rightarrow> int \<Rightarrow> double" where
  "round53 m e =
     (if m = 0 then Double 0 0
      else
        let b = bitlen m
        in if b \<le> 53 then Double (m * 2 ^ nat (53 - b)) (e - (53 - b))
           else
             let k = b - 53; n = nearest_even m (2 ^ nat k)
             in if n = 2 ^ 53 then Double (2 ^ 52) (e + k + 1) else Double n (e + k))"

text \<open>
  \<^verbatim>\<open>x + y\<close> on floats is the exact sum, rounded; \<^verbatim>\<open>x > y\<close> compares the values; a
  literal such as \<^verbatim>\<open>0.0960\<close> is the double nearest to 960 / 10000.
\<close>

definition float_add :: "double \<Rightarrow> double \<Rightarrow> double" where
  "float_add x y =
     (let e = min (exponent x) (exponent y)
      in round53 (mantissa x * 2 ^ nat (exponent x - e) + mantissa y * 2 ^ nat (exponent y - e)) e)"

definition float_gt :: "double \<Rightarrow> double \<Rightarrow> bool" where
  "float_gt x y =
     (let e = min (exponent x) (exponent y)
      in mantissa x * 2 ^ nat (exponent x - e) > mantissa y * 2 ^ nat (exponent y - e))"

definition float_literal :: "int \<Rightarrow> int \<Rightarrow> double" where
  "float_literal p q =
     (if p = 0 then Double 0 0
      else
        let k = 53 + bitlen q - bitlen p;
            k' = (if p * 2 ^ nat k < q * 2 ^ 53 then k else k - 1);
            n = nearest_even (p * 2 ^ nat k') q
        in if n = 2 ^ 53 then Double (2 ^ 52) (1 - k') else Double n (- k'))"

subsection \<open>The iteration order of a Python set\<close>

text \<open>
  \<^verbatim>\<open>set(word)\<close> holds every letter of the word once.  The order in which a loop visits
  them depends on the hashes of the letters, which CPython draws anew for every process
  (\<^verbatim>\<open>PYTHONHASHSEED\<close>), and on the order of insertion.  Within one process it is a function
  of the word; the functions that iterate over \<^verbatim>\<open>set(word)\<close> take it as an argument.
\<close>

typedef set_iteration = "{f :: string \<Rightarrow> char list. \<forall>w. distinct (f w) \<and> set (f w) = set w}"
  morphisms elements Abs_set_iteration
proof
  show "remdups \<in> {f. \<forall>w. distinct (f w) \<and> set (f w) = set w}" by simp
qed

setup_lifting type_definition_set_iteration

text \<open>
  An order for the examples.  On the words \<^verbatim>\<open>later\<close> and \<^verbatim>\<open>alert\<close> it is the order
  CPython 3.11 has with \<^verbatim>\<open>PYTHONHASHSEED=49\<close>; the letters of any other word come in the
  order \<open>remdups\<close> lists them.
\<close>

lift_definition example_iteration :: set_iteration is
  "\<lambda>w. if w = ''later'' then ''teral'' else if w = ''alert'' then ''etalr'' else remdups w"
  by auto

subsection \<open>The score\<close>

text \<open>The table of line 19, each weight the double its literal denotes.\<close>

definition CHAR_TO_FREQUENCY :: "char \<rightharpoonup> double" where
  "CHAR_TO_FREQUENCY = map_of
     [(CHR ''a'', float_literal 960 10000), (CHR ''b'', float_literal 249 10000),
      (CHR ''c'', float_literal 302 10000), (CHR ''d'', float_literal 368 10000),
      (CHR ''e'', float_literal 1004 10000), (CHR ''f'', float_literal 167 10000),
      (CHR ''g'', float_literal 251 10000), (CHR ''h'', float_literal 268 10000),
      (CHR ''i'', float_literal 590 10000), (CHR ''j'', float_literal 46 10000),
      (CHR ''k'', float_literal 236 10000), (CHR ''l'', float_literal 509 10000),
      (CHR ''m'', float_literal 325 10000), (CHR ''n'', float_literal 468 10000),
      (CHR ''o'', float_literal 702 10000), (CHR ''p'', float_literal 328 10000),
      (CHR ''q'', float_literal 20 10000), (CHR ''r'', float_literal 635 10000),
      (CHR ''s'', float_literal 985 10000), (CHR ''t'', float_literal 499 10000),
      (CHR ''u'', float_literal 394 10000), (CHR ''v'', float_literal 108 10000),
      (CHR ''w'', float_literal 152 10000), (CHR ''x'', float_literal 44 10000),
      (CHR ''y'', float_literal 323 10000), (CHR ''z'', float_literal 68 10000)]"

text \<open>
  \<^verbatim>\<open>sum(CHAR_TO_FREQUENCY[char] for char in set(word))\<close>: \<^verbatim>\<open>sum\<close> starts at 0 and adds
  the looked-up weights from left to right, each addition rounded (the \<^verbatim>\<open>sum\<close> of CPython
  up to version 3.11; later versions compensate the rounding errors).  A letter missing
  from the table raises \<^verbatim>\<open>KeyError\<close>.
\<close>

fun sum_frequencies :: "double \<Rightarrow> char list \<Rightarrow> error + double" where
  "sum_frequencies acc [] = Inr acc"
| "sum_frequencies acc (c # rest) =
     (case CHAR_TO_FREQUENCY c of
        None \<Rightarrow> Inl KeyError
      | Some f \<Rightarrow> sum_frequencies (float_add acc f) rest)"

definition get_frequency_score :: "set_iteration \<Rightarrow> string \<Rightarrow> error + double" where
  "get_frequency_score it word = sum_frequencies (Double 0 0) (elements it word)"


subsection \<open>The selection\<close>

text \<open>\<^verbatim>\<open>all(constraint.is_satisfied(word) for constraint in constraints)\<close>\<close>

fun all_satisfied :: "string \<Rightarrow> Constraint list \<Rightarrow> error + bool" where
  "all_satisfied word [] = Inr True"
| "all_satisfied word (k # rest) =
     (case is_satisfied k word of
        Inl e \<Rightarrow> Inl e
      | Inr b \<Rightarrow> if b then all_satisfied word rest else Inr False)"

text \<open>The list comprehension of lines 300-304.\<close>

fun filter_words :: "string list \<Rightarrow> Constraint list \<Rightarrow> error + string list" where
  "filter_words [] constraints = Inr []"
| "filter_words (word # rest) constraints =
     (case all_satisfied word constraints of
        Inl e \<Rightarrow> Inl e
      | Inr b \<Rightarrow> (case filter_words rest constraints of
                    Inl e \<Rightarrow> Inl e
                  | Inr kept \<Rightarrow> Inr (if b then word # kept else kept)))"

text \<open>
  The builtin \<^verbatim>\<open>max(words, key=...)\<close>: it raises \<^verbatim>\<open>ValueError\<close> on an empty sequence,
  calls the key on every element, and replaces the running maximum only by a strictly
  greater key, so the first of several maximal elements is returned.
\<close>

fun max_loop :: "('a \<Rightarrow> error + double) \<Rightarrow> 'a \<Rightarrow> double \<Rightarrow> 'a list \<Rightarrow> error + 'a" where
  "max_loop key best best_key [] = Inr best"
| "max_loop key best best_key (x # rest) =
     (case key x of
        Inl e \<Rightarrow> Inl e
      | Inr k \<Rightarrow> if float_gt k best_key then max_loop key x k rest
                else max_loop key best best_key rest)"

definition max_by_key :: "('a \<Rightarrow> error + double) \<Rightarrow> 'a list \<Rightarrow> error + 'a" where
  "max_by_key key xs =
     (case xs of
        [] \<Rightarrow> Inl (ValueError EmptySequence)
      | x # rest \<Rightarrow> (case key x of
                      Inl e \<Rightarrow> Inl e
                    | Inr k \<Rightarrow> max_loop key x k rest))"

definition get_word_to_guess ::
  "set_iteration \<Rightarrow> string list \<Rightarrow> Constraint list \<Rightarrow> error + string" where
  "get_word_to_guess it words constraints =
     (case filter_words words constraints of
        Inl e \<Rightarrow> Inl e
      | Inr kept \<Rightarrow> max_by_key (get_frequency_score it) kept)"

section \<open>The constraint updater: \<^verbatim>\<open>update_constraints\<close>\<close>

text \<open>
  \<^verbatim>\<open>set(range(word_length))\<close> is \<open>[0..word_length - 1]\<close>, empty for a \<^verbatim>\<open>word_length\<close>
  below 1.  One iteration of the loop of line 322 takes the working list
  \<^verbatim>\<open>new_constraints\<close> to its next value, or raises at a colour that is none of the three.
\<close>

definition char_is_duplicate :: "Guess \<Rightarrow> char \<Rightarrow> bool" where
  "char_is_duplicate guess c \<longleftrightarrow> count_list (map letter (chars guess)) c > 1"

definition update_step ::
  "Guess \<Rightarrow> int \<Rightarrow> nat \<times> Char \<Rightarrow> Constraint list \<Rightarrow> error + Constraint list" where
  "update_step guess word_length = (\<lambda>(i, ch) new_constraints.
     case colour ch of
       Some GREEN \<Rightarrow>
         Inr (filter (\<lambda>k. char k \<noteq> letter ch) new_constraints
              @ [\<lparr>char = letter ch, positions = [int i], type = IN_SOME_POSITION\<rparr>])
     | Some YELLOW \<Rightarrow>
         Inr (new_constraints
              @ [\<lparr>char = letter ch,
                  positions = filter (\<lambda>j. j \<noteq> int i) [0..word_length - 1],
                  type = IN_SOME_POSITION\<rparr>]
              @ [\<lparr>char = letter ch, positions = [int i], type = NOT_IN_POSITIONS\<rparr>])
     | Some GREY \<Rightarrow>
         if char_is_duplicate guess (letter ch)
         then Inr (new_constraints
                   @ [\<lparr>char = letter ch, positions = [int i], type = NOT_IN_POSITIONS\<rparr>])
         else Inr (filter (\<lambda>k. char k \<noteq> letter ch) new_constraints
                   @ [\<lparr>char = letter ch, positions = [0..word_length - 1],
                       type = NOT_IN_POSITIONS\<rparr>])
     | None \<Rightarrow> Inl (ValueError UnexpectedColour))"

fun update_loop ::
  "Guess \<Rightarrow> int \<Rightarrow> (nat \<times> Char) list \<Rightarrow> Constraint list \<Rightarrow> error + Constraint list" where
  "update_loop guess word_length [] new_constraints = Inr new_constraints"
| "update_loop guess word_length (item # rest) new_constraints =
     (case update_step guess word_length item new_constraints of
        Inl e \<Rightarrow> Inl e
      | Inr new_constraints' \<Rightarrow> update_loop guess word_length rest new_constraints')"

text \<open>
  On values, \<^verbatim>\<open>deepcopy(constraints)\<close> is the same list; what it does to the objects is
  the subject of the store model further down.
\<close>

definition update_constraints ::
  "Constraint list \<Rightarrow> Guess \<Rightarrow> int \<Rightarrow> error + Constraint list" where
  "update_constraints constraints guess word_length =
     update_loop guess word_length (enumerate 0 (chars guess)) constraints"

text \<open>The positions at which \<^verbatim>\<open>word[position]\<close> does not raise.\<close>

definition valid_index :: "string \<Rightarrow> int \<Rightarrow> bool" where
  "valid_index word p \<longleftrightarrow> - int (length word) \<le> p \<and> p < int (length word)"

text \<open>
  Two predicates for the statements below: every position of a constraint is one of
  \<open>0, ..., L - 1\<close>; and a constraint states a fact about a solution, that is, its
  positions are indices of the solution and the solution satisfies it.
\<close>

definition within_bounds :: "int \<Rightarrow> Constraint \<Rightarrow> bool" where
  "within_bounds L k \<longleftrightarrow> (\<forall>p\<in>set (positions k). 0 \<le> p \<and> p < L)"

definition known :: "string \<Rightarrow> Constraint \<Rightarrow> bool" where
  "known sol k \<longleftrightarrow> within_bounds (int (length sol)) k \<and> is_satisfied k sol = Inr True"

section \<open>The orchestrator: \<^verbatim>\<open>simulate\<close>\<close>

text \<open>
  The \<^verbatim>\<open>while puzzle.is_in_progress\<close> loop of line 413, from a puzzle and a list of
  constraints to the puzzle at the end of the loop, or to the exception that leaves it.
\<close>

function simulate_loop ::
  "set_iteration \<Rightarrow> string list \<Rightarrow> Puzzle \<Rightarrow> Constraint list \<Rightarrow> error + Puzzle" where
  "simulate_loop it words puzzle constraints =
     (if is_in_progress puzzle then
        (case get_word_to_guess it words constraints of
           Inl e \<Rightarrow> Inl e
         | Inr word_to_guess \<Rightarrow>
             (case enter_word puzzle word_to_guess of
                (Inl e, puzzle') \<Rightarrow> Inl e
              | (Inr guess, puzzle') \<Rightarrow>
                  if is_correct guess then Inr puzzle'
                  else (case update_constraints constraints guess (int WORD_LENGTH) of
                          Inl e \<Rightarrow> Inl e
                        | Inr constraints' \<Rightarrow> simulate_loop it words puzzle' constraints')))
      else Inr puzzle)"
  by pat_completeness auto
termination
  by (relation "measure (\<lambda>(it, words, puzzle, constraints).
                  MAX_NUM_GUESSES - length (guesses puzzle))")
     (auto simp: enter_word_def Let_def is_in_progress_def split: if_splits)

declare simulate_loop.simps [simp del]

text \<open>
  \<^verbatim>\<open>simulate(words)\<close> with a list of words given.  \<^verbatim>\<open>random.choice(words)\<close> raises
  \<^verbatim>\<open>IndexError\<close> on an empty list and returns one of its elements otherwise; the argument
  \<open>r\<close> stands for the random draw.  Printing is left out.
\<close>

definition simulate :: "set_iteration \<Rightarrow> string list \<Rightarrow> nat \<Rightarrow> error + (bool \<times> nat option)" where
  "simulate it words r =
     (if words = [] then Inl IndexError
      else
        let puzzle = \<lparr>solution = words ! (r mod length words), guesses = []\<rparr>
        in case simulate_loop it words puzzle [] of
             Inl e \<Rightarrow> Inl e
           | Inr puzzle' \<Rightarrow>
               if won puzzle' then Inr (True, Some (length (guesses puzzle')))
               else Inr (False, None))"

section \<open>The objects of \<^verbatim>\<open>update_constraints\<close> in a store\<close>

text \<open>
  Whether \<^verbatim>\<open>update_constraints\<close> changes its argument is a question about objects, not
  values.  In the store, a Python list object is the list of the references it holds and a
  \<^verbatim>\<open>Constraint\<close> object is its three fields; \<open>limit\<close> is the first reference not yet in
  use.  References are natural numbers; the two kinds of object share them.
\<close>

type_synonym ref = nat

record store =
  list_at :: "ref \<Rightarrow> ref list"
  constraint_at :: "ref \<Rightarrow> Constraint"
  limit :: ref

text \<open>
  Creating a list object or a \<^verbatim>\<open>Constraint\<close> object takes the next free reference;
  \<^verbatim>\<open>l.append(x)\<close> changes the list object \<open>l\<close> in place.
\<close>

definition new_list :: "ref list \<Rightarrow> store \<Rightarrow> ref \<times> store" where
  "new_list items s =
     (limit s, s\<lparr>list_at := (list_at s)(limit s := items), limit := Suc (limit s)\<rparr>)"

definition new_constraint :: "Constraint \<Rightarrow> store \<Rightarrow> ref \<times> store" where
  "new_constraint k s =
     (limit s, s\<lparr>constraint_at := (constraint_at s)(limit s := k), limit := Suc (limit s)\<rparr>)"

definition list_append :: "ref \<Rightarrow> ref \<Rightarrow> store \<Rightarrow> store" where
  "list_append l x s = s\<lparr>list_at := (list_at s)(l := list_at s l @ [x])\<rparr>"

text \<open>
  \<^verbatim>\<open>copy.deepcopy\<close> of a list of \<^verbatim>\<open>Constraint\<close> objects: a new empty list \<open>y\<close> is
  created and then filled with the copies of the elements.  The memo table maps each object
  already copied to its copy, so an object that occurs twice in the list is copied once.
\<close>

fun deepcopy_items :: "ref \<Rightarrow> ref list \<Rightarrow> (ref \<times> ref) list \<Rightarrow> store \<Rightarrow> store" where
  "deepcopy_items y [] memo s = s"
| "deepcopy_items y (a # rest) memo s =
     (case map_of memo a of
        Some b \<Rightarrow> deepcopy_items y rest memo (list_append y b s)
      | None \<Rightarrow>
          (let (b, s') = new_constraint (constraint_at s a) s
           in deepcopy_items y rest ((a, b) # memo) (list_append y b s')))"

definition deepcopy :: "ref \<Rightarrow> store \<Rightarrow> ref \<times> store" where
  "deepcopy x s =
     (let (y, s') = new_list [] s
      in (y, deepcopy_items y (list_at s x) [] s'))"

text \<open>
  The list comprehension of lines 327 and 377 builds a new list object that holds those of
  the old references whose object has another \<^verbatim>\<open>char\<close>;
  \<^verbatim>\<open>new_constraints.append(Constraint(...))\<close> creates the object and appends its reference.
\<close>

definition without_char :: "char \<Rightarrow> ref \<Rightarrow> store \<Rightarrow> ref \<times> store" where
  "without_char c l s =
     new_list (filter (\<lambda>constraint. char (constraint_at s constraint) \<noteq> c) (list_at s l)) s"

definition append_new :: "ref \<Rightarrow> Constraint \<Rightarrow> store \<Rightarrow> store" where
  "append_new l k s = (let (a, s') = new_constraint k s in list_append l a s')"

text \<open>
  The loop body and the loop of \<^verbatim>\<open>update_constraints\<close> on the store: the variable
  \<^verbatim>\<open>new_constraints\<close> is a reference, and the store is returned as the call, or the
  exception, leaves it.
\<close>

definition update_step_store ::
  "Guess \<Rightarrow> int \<Rightarrow> nat \<times> Char \<Rightarrow> ref \<Rightarrow> store \<Rightarrow> (error + ref) \<times> store" where
  "update_step_store guess word_length = (\<lambda>(i, ch) new_constraints s.
     case colour ch of
       Some GREEN \<Rightarrow>
         (let (l, s') = without_char (letter ch) new_constraints s
          in (Inr l,
              append_new l \<lparr>char = letter ch, positions = [int i], type = IN_SOME_POSITION\<rparr> s'))
     | Some YELLOW \<Rightarrow>
         (let s' = append_new new_constraints
                     \<lparr>char = letter ch,
                      positions = filter (\<lambda>j. j \<noteq> int i) [0..word_length - 1],
                      type = IN_SOME_POSITION\<rparr> s
          in (Inr new_constraints,
              append_new new_constraints
                \<lparr>char = letter ch, positions = [int i], type = NOT_IN_POSITIONS\<rparr> s'))
     | Some GREY \<Rightarrow>
         if char_is_duplicate guess (letter ch)
         then (Inr new_constraints,
               append_new new_constraints
                 \<lparr>char = letter ch, positions = [int i], type = NOT_IN_POSITIONS\<rparr> s)
         else (let (l, s') = without_char (letter ch) new_constraints s
               in (Inr l,
                   append_new l \<lparr>char = letter ch, positions = [0..word_length - 1],
                                 type = NOT_IN_POSITIONS\<rparr> s'))
     | None \<Rightarrow> (Inl (ValueError UnexpectedColour), s))"

fun update_loop_store ::
  "Guess \<Rightarrow> int \<Rightarrow> (nat \<times> Char) list \<Rightarrow> ref \<Rightarrow> store \<Rightarrow> (error + ref) \<times> store" where
  "update_loop_store guess word_length [] new_constraints s = (Inr new_constraints, s)"
| "update_loop_store guess word_length (item # rest) new_constraints s =
     (case update_step_store guess word_length item new_constraints s of
        (Inl e, s') \<Rightarrow> (Inl e, s')
      | (Inr new_constraints', s') \<Rightarrow>
          update_loop_store guess word_length rest new_constraints' s')"

definition update_constraints_store ::
  "ref \<Rightarrow> Guess \<Rightarrow> int \<Rightarrow> store \<Rightarrow> (error + ref) \<times> store" where
  "update_constraints_store constraints guess word_length s =
     (let (new_constraints, s') = deepcopy constraints s
      in update_loop_store guess word_length (enumerate 0 (chars guess)) new_constraints s')"

text \<open>
  The value of a list object; a list whose object and elements are in use; and a store
  whose objects in use are all as they were in an earlier store.
\<close>

definition contents :: "store \<Rightarrow> ref \<Rightarrow> Constraint list" where
  "contents s l = map (constraint_at s) (list_at s l)"

definition allocated :: "store \<Rightarrow> ref \<Rightarrow> bool" where
  "allocated s l \<longleftrightarrow> l < limit s \<and> (\<forall>a\<in>set (list_at s l). a < limit s)"

definition untouched :: "store \<Rightarrow> store \<Rightarrow> bool" where
  "untouched s s' \<longleftrightarrow>
     limit s \<le> limit s'
     \<and> (\<forall>a<limit s. list_at s' a = list_at s a \<and> constraint_at s' a = constraint_at s a)"

text \<open>
  A store for the examples: one list of three entries, the first and the last of them the
  same object.
\<close>

definition example_store :: store where
  "example_store =
     \<lparr>list_at = (\<lambda>_. [])(0 := [1, 2, 1]),
      constraint_at = (\<lambda>_. \<lparr>char = CHR ''o'', positions = [3], type = NOT_IN_POSITIONS\<rparr>)
                        (2 := \<lparr>char = CHR ''s'', positions = [4], type = NOT_IN_POSITIONS\<rparr>),
      limit = 3\<rparr>"

section \<open>Properties of the evaluator\<close>

lemma len_filter_upd:
  "i < length xs \<Longrightarrow>
   length (filter P (xs[i := y])) + (if P (xs ! i) then 1 else 0)
     = length (filter P xs) + (if P y then 1 else 0)"
proof (induction xs arbitrary: i)
  case Nil then show ?case by simp
next
  case (Cons x xs)
  then show ?case by (cases i) auto
qed

lemma process_remaining_length [simp]:
  "length (process_remaining sol i cs) = length cs"
  by (simp add: process_remaining_def Let_def)

lemma fold_process_length [simp]:
  "length (fold (process_remaining sol) is cs) = length cs"
  by (induction "is" arbitrary: cs) simp_all

lemma num_recognised_alt:
  "num_instances_recognised_so_far cs l = length (filter (recognised l) cs)"
  by (simp add: num_instances_recognised_so_far_def recognised_def[abs_def])

lemma process_remaining_cap:
  assumes i: "i < length cs"
    and inv: "num_instances_recognised_so_far cs l \<le> count_list sol l"
  shows "num_instances_recognised_so_far (process_remaining sol i cs) l \<le> count_list sol l"
proof (cases "colour (cs ! i) = None")
  case False
  then show ?thesis using inv by (simp add: process_remaining_def)
next
  case True
  define yel where "yel \<longleftrightarrow> num_instances_recognised_so_far cs (letter (cs ! i))
                       < count_list sol (letter (cs ! i))"
  define y where "y = (cs ! i)\<lparr>colour := Some (if yel then YELLOW else GREY)\<rparr>"
  have pr: "process_remaining sol i cs = cs[i := y]"
    using True by (simp add: process_remaining_def Let_def y_def yel_def)
  have old: "\<not> recognised l (cs ! i)"
    using True by (simp add: recognised_def)
  have eq: "length (filter (recognised l) (cs[i := y]))
              = length (filter (recognised l) cs) + (if recognised l y then 1 else 0)"
    using len_filter_upd[OF i, of "recognised l" y] old by simp
  show ?thesis
  proof (cases "recognised l y")
    case False
    then show ?thesis using inv eq by (simp add: pr num_recognised_alt)
  next
    case rec: True
    then have "letter (cs ! i) = l" and yel
      by (auto simp: recognised_def y_def split: if_splits)
    then have "num_instances_recognised_so_far cs l < count_list sol l"
      by (simp add: yel_def)
    then show ?thesis using eq rec by (simp add: pr num_recognised_alt)
  qed
qed

lemma fold_process_cap:
  assumes "\<forall>i\<in>set is. i < length cs"
    and "num_instances_recognised_so_far cs l \<le> count_list sol l"
  shows "num_instances_recognised_so_far (fold (process_remaining sol) is cs) l \<le> count_list sol l"
  using assms
proof (induction "is" arbitrary: cs)
  case Nil then show ?case by simp
next
  case (Cons i "is")
  then show ?case by (simp add: process_remaining_cap)
qed

lemma first_pass_cap:
  "num_instances_recognised_so_far (first_pass word sol) l \<le> count_list sol l"
proof -
  have "length (filter (recognised l) (map (\<lambda>(ch, solution_char).
            \<lparr>letter = ch, colour = first_colour whole ch solution_char\<rparr>) (zip word rest)))
        \<le> count_list rest l" for whole rest
  proof (induction word arbitrary: rest)
    case Nil then show ?case by simp
  next
    case (Cons a word)
    show ?case
    proof (cases rest)
      case Nil then show ?thesis by simp
    next
      case (Cons b rest')
      with Cons.IH[of rest'] show ?thesis
        by (auto simp: recognised_def first_colour_def split: if_splits)
    qed
  qed
  then show ?thesis by (simp add: num_recognised_alt first_pass_def)
qed

lemma first_pass_length [simp]:
  "length (first_pass word sol) = min (length word) (length sol)"
  by (simp add: first_pass_def)

lemma first_pass_nth:
  "i < length word \<Longrightarrow> i < length sol \<Longrightarrow>
   first_pass word sol ! i
     = \<lparr>letter = word ! i, colour = first_colour sol (word ! i) (sol ! i)\<rparr>"
  by (simp add: first_pass_def)

lemma process_remaining_letter [simp]:
  "letter (process_remaining sol i cs ! j) = letter (cs ! j)"
  by (cases "i < length cs"; cases "i = j") (simp_all add: process_remaining_def Let_def list_update_beyond)

lemma process_remaining_green [simp]:
  "colour (process_remaining sol i cs ! j) = Some GREEN \<longleftrightarrow> colour (cs ! j) = Some GREEN"
  by (cases "i < length cs"; cases "i = j") (auto simp: process_remaining_def Let_def list_update_beyond)

lemma process_remaining_keeps_colour:
  "colour (cs ! j) \<noteq> None \<Longrightarrow> colour (process_remaining sol i cs ! j) = colour (cs ! j)"
  by (cases "i < length cs"; cases "i = j") (auto simp: process_remaining_def Let_def list_update_beyond)

lemma process_remaining_sets_colour:
  "i < length cs \<Longrightarrow> colour (process_remaining sol i cs ! i) \<noteq> None"
  by (auto simp: process_remaining_def Let_def)

lemma fold_process_letter [simp]:
  "letter (fold (process_remaining sol) is cs ! j) = letter (cs ! j)"
  by (induction "is" arbitrary: cs) simp_all

lemma fold_process_green [simp]:
  "colour (fold (process_remaining sol) is cs ! j) = Some GREEN \<longleftrightarrow> colour (cs ! j) = Some GREEN"
  by (induction "is" arbitrary: cs) simp_all

lemma fold_process_finalised:
  "k \<le> length cs \<Longrightarrow> j < k \<Longrightarrow> colour (fold (process_remaining sol) [0..<k] cs ! j) \<noteq> None"
proof (induction k arbitrary: j)
  case 0 then show ?case by simp
next
  case (Suc k)
  let ?mid = "fold (process_remaining sol) [0..<k] cs"
  have fold_Suc: "fold (process_remaining sol) [0..<Suc k] cs = process_remaining sol k ?mid"
    by simp
  show ?case
  proof (cases "j = k")
    case True
    then show ?thesis using Suc.prems unfolding fold_Suc
      by (simp add: process_remaining_sets_colour)
  next
    case False
    then have "colour (?mid ! j) \<noteq> None" using Suc by simp
    then show ?thesis unfolding fold_Suc
      by (simp add: process_remaining_keeps_colour)
  qed
qed

lemma create_from_word_length:
  "length (chars (create_from_word word sol)) = min (length word) (length sol)"
  by (simp add: create_from_word_def second_pass_def)

lemma create_from_word_letter:
  "i < length word \<Longrightarrow> i < length sol \<Longrightarrow>
   letter (chars (create_from_word word sol) ! i) = word ! i"
  by (simp add: create_from_word_def second_pass_def first_pass_nth)

lemma create_from_word_green:
  "i < length word \<Longrightarrow> i < length sol \<Longrightarrow>
   colour (chars (create_from_word word sol) ! i) = Some GREEN \<longleftrightarrow> word ! i = sol ! i"
  by (simp add: create_from_word_def second_pass_def first_pass_nth first_colour_def)

lemma create_from_word_finalised:
  "i < length (chars (create_from_word word sol)) \<Longrightarrow>
   colour (chars (create_from_word word sol) ! i) \<noteq> None"
  by (simp add: create_from_word_def second_pass_def fold_process_finalised)

text \<open>
  Claim C1 (duplicate-letter cap).  For every guess word, every solution word and every
  letter \<open>c\<close>, the number of positions of the evaluated guess that carry the letter \<open>c\<close>
  with the colour Green or Yellow is at most the number of occurrences of \<open>c\<close> in the
  solution.  The second loop resolves the open positions in ascending order, and the bound
  holds after each of its steps; it does not depend on the two words having the same
  length.
\<close>

theorem duplicate_letter_cap:
  "length (filter (\<lambda>ch. letter ch = c \<and> (colour ch = Some GREEN \<or> colour ch = Some YELLOW))
             (chars (create_from_word word sol)))
     \<le> count_list sol c"
proof -
  have "num_instances_recognised_so_far (chars (create_from_word word sol)) c
          \<le> count_list sol c"
    by (simp add: create_from_word_def second_pass_def fold_process_cap first_pass_cap)
  then show ?thesis
    by (simp add: num_instances_recognised_so_far_def)
qed

text \<open>
  Claim C2 (Green is exact match).  For a guess word and a solution word of the same
  length, the evaluated guess has one coloured letter per position, position \<open>i\<close> is Green
  exactly when \<open>word ! i = sol ! i\<close> (\<open>sol\<close> the solution), and the number of Green letters is the number
  of positions at which the two words agree.
\<close>

theorem green_exactly_matches:
  assumes "length word = length sol"
  shows "length (chars (create_from_word word sol)) = length word
       \<and> (\<forall>i<length word.
            colour (chars (create_from_word word sol) ! i) = Some GREEN
              \<longleftrightarrow> word ! i = sol ! i)
       \<and> length (filter (\<lambda>ch. colour ch = Some GREEN) (chars (create_from_word word sol)))
           = card {i. i < length word \<and> word ! i = sol ! i}"
proof -
  let ?cs = "chars (create_from_word word sol)"
  have len: "length ?cs = length word"
    using assms by (simp add: create_from_word_length)
  have green: "\<forall>i<length word. colour (?cs ! i) = Some GREEN \<longleftrightarrow> word ! i = sol ! i"
    using assms by (simp add: create_from_word_green)
  have "length (filter (\<lambda>ch. colour ch = Some GREEN) ?cs)
          = card {i. i < length ?cs \<and> colour (?cs ! i) = Some GREEN}"
    by (rule length_filter_conv_card)
  also have "{i. i < length ?cs \<and> colour (?cs ! i) = Some GREEN}
               = {i. i < length word \<and> word ! i = sol ! i}"
    using len green by auto
  finally show ?thesis using len green by simp
qed

theorem green_exactly_matches_witness:
  "length ''boost'' = length ''roots''
   \<and> length (chars (create_from_word ''boost'' ''roots'')) = 5
   \<and> map colour (chars (create_from_word ''boost'' ''roots''))
       = [Some GREY, Some GREEN, Some GREEN, Some YELLOW, Some YELLOW]
   \<and> length (filter (\<lambda>ch. colour ch = Some GREEN) (chars (create_from_word ''boost'' ''roots'')))
       = card {i. i < length ''boost'' \<and> ''boost'' ! i = ''roots'' ! i}"
proof -
  have h: "length ''boost'' = length ''roots''" by simp
  have ev: "map colour (chars (create_from_word ''boost'' ''roots''))
       = [Some GREY, Some GREEN, Some GREEN, Some YELLOW, Some YELLOW]"
    by code_simp
  show ?thesis using green_exactly_matches [OF h] ev by simp
qed

section \<open>Properties of the puzzle\<close>

text \<open>
  Claim C9.  Once the history of a puzzle holds \<^verbatim>\<open>MAX_NUM_GUESSES\<close> guesses (or more),
  \<^verbatim>\<open>enter_word\<close> raises for every word, and the puzzle, its history included, is as it
  was before the call.
\<close>

theorem enter_word_exhausted:
  assumes "length (guesses p) \<ge> MAX_NUM_GUESSES"
  shows "enter_word p word = (Inl (ValueError ExceededMaxGuesses), p)"
  using assms by (simp add: enter_word_def)

theorem enter_word_exhausted_witness:
  "length (guesses \<lparr>solution = ''later'', guesses = replicate 6 (create_from_word ''water'' ''later'')\<rparr>) \<ge> MAX_NUM_GUESSES
   \<and> enter_word \<lparr>solution = ''later'', guesses = replicate 6 (create_from_word ''water'' ''later'')\<rparr> ''later''
       = (Inl (ValueError ExceededMaxGuesses),
          \<lparr>solution = ''later'', guesses = replicate 6 (create_from_word ''water'' ''later'')\<rparr>)"
proof -
  have h: "length (guesses \<lparr>solution = ''later'', guesses = replicate 6 (create_from_word ''water'' ''later'')\<rparr>) \<ge> MAX_NUM_GUESSES"
    by (simp add: MAX_NUM_GUESSES_def)
  show ?thesis using h enter_word_exhausted [OF h, of "''later''"] by simp
qed

text \<open>
  Claim C4 says that evaluation fails whenever the lengths of guess and solution differ
  or are not the configured length.  The code does not do that: \<^verbatim>\<open>create_from_word\<close>
  has no check and evaluates the positions that \<^verbatim>\<open>zip\<close> pairs up, and
  \<^verbatim>\<open>enter_word\<close> checks the length of the guessed word only, never that of the
  solution.  Two inputs of differing lengths that are evaluated to a guess:
\<close>

theorem evaluation_accepts_length_mismatch:
  "length ''ab'' \<noteq> length ''abc''
   \<and> create_from_word ''ab'' ''abc''
        = \<lparr>chars = [\<lparr>letter = CHR ''a'', colour = Some GREEN\<rparr>,
                     \<lparr>letter = CHR ''b'', colour = Some GREEN\<rparr>]\<rparr>
   \<and> length ''later'' \<noteq> length ''abc''
   \<and> fst (enter_word \<lparr>solution = ''abc'', guesses = []\<rparr> ''later'')
        = Inr \<lparr>chars = [\<lparr>letter = CHR ''l'', colour = Some GREY\<rparr>,
                         \<lparr>letter = CHR ''a'', colour = Some YELLOW\<rparr>,
                         \<lparr>letter = CHR ''t'', colour = Some GREY\<rparr>]\<rparr>"
  by code_simp

text \<open>
  Claim C4 as the code has it: on a puzzle with room for another guess, \<^verbatim>\<open>enter_word\<close>
  raises the length error for every word whose length is not \<^verbatim>\<open>WORD_LENGTH\<close> and leaves
  the puzzle as it was; \<^verbatim>\<open>create_from_word\<close> never fails and returns as many coloured
  letters as the shorter of its two arguments has.
\<close>

theorem length_check_of_enter_word:
  "(length (guesses p) < MAX_NUM_GUESSES \<and> length word \<noteq> WORD_LENGTH
      \<longrightarrow> enter_word p word = (Inl (ValueError WordLength), p))
   \<and> length (chars (create_from_word word sol)) = min (length word) (length sol)"
  by (simp add: enter_word_def create_from_word_length)

theorem length_check_of_enter_word_witness:
  "length (guesses \<lparr>solution = ''later'', guesses = []\<rparr>) < MAX_NUM_GUESSES
   \<and> length ''late'' \<noteq> WORD_LENGTH
   \<and> enter_word \<lparr>solution = ''later'', guesses = []\<rparr> ''late''
       = (Inl (ValueError WordLength), \<lparr>solution = ''later'', guesses = []\<rparr>)"
  using length_check_of_enter_word [of "\<lparr>solution = ''later'', guesses = []\<rparr>" "''late''" "''later''"]
  by (simp add: MAX_NUM_GUESSES_def WORD_LENGTH_def)

section \<open>Properties of the candidate selector\<close>



lemma getitem_valid: "valid_index word p \<Longrightarrow> \<exists>x. getitem word p = Inr x"
  by (auto simp: getitem_def valid_index_def Let_def)

lemma getitem_error: "getitem word p = Inl e \<Longrightarrow> e = IndexError \<and> \<not> valid_index word p"
  by (auto simp: getitem_def valid_index_def Let_def split: if_splits)

lemma char_is_in_some_position_total:
  "\<forall>p\<in>set ps. valid_index word p \<Longrightarrow> \<exists>b. char_is_in_some_position word c ps = Inr b"
proof (induction ps)
  case Nil show ?case by (rule exI[of _ False]) simp
next
  case (Cons p ps)
  then obtain x where "getitem word p = Inr x"
    using getitem_valid by fastforce
  with Cons show ?case by auto
qed

lemma is_satisfied_total:
  "\<forall>p\<in>set (positions k). valid_index word p \<Longrightarrow> \<exists>b. is_satisfied k word = Inr b"
  using char_is_in_some_position_total[of "positions k" word "char k"]
  by (auto simp: is_satisfied_def split: ConstraintType.splits)

lemma all_satisfied_total:
  "\<forall>k\<in>set ks. \<forall>p\<in>set (positions k). valid_index word p \<Longrightarrow>
   all_satisfied word ks = Inr (\<forall>k\<in>set ks. is_satisfied k word = Inr True)"
proof (induction ks)
  case Nil then show ?case by simp
next
  case (Cons k ks)
  then obtain b where "is_satisfied k word = Inr b"
    using is_satisfied_total[of k word] by auto
  with Cons show ?case by auto
qed

lemma filter_words_total:
  "\<forall>w\<in>set ws. \<forall>k\<in>set ks. \<forall>p\<in>set (positions k). valid_index w p \<Longrightarrow>
   filter_words ws ks = Inr (filter (\<lambda>w. \<forall>k\<in>set ks. is_satisfied k w = Inr True) ws)"
proof (induction ws)
  case Nil then show ?case by simp
next
  case (Cons w ws)
  then show ?case by (simp add: all_satisfied_total)
qed

lemma elements_distinct [simp]: "distinct (elements it w)"
  using elements[of it] by simp

lemma elements_set [simp]: "set (elements it w) = set w"
  using elements[of it] by simp

lemma sum_frequencies_total:
  "set cs \<subseteq> dom CHAR_TO_FREQUENCY \<Longrightarrow> \<exists>s. sum_frequencies acc cs = Inr s"
  by (induction cs arbitrary: acc) auto

lemma get_frequency_score_total:
  "set word \<subseteq> dom CHAR_TO_FREQUENCY \<Longrightarrow> \<exists>s. get_frequency_score it word = Inr s"
  by (simp add: get_frequency_score_def sum_frequencies_total)

lemma max_loop_member:
  "\<forall>x\<in>set xs. \<exists>k. key x = Inr k \<Longrightarrow> \<exists>m. max_loop key best bk xs = Inr m \<and> m \<in> set (best # xs)"
proof (induction xs arbitrary: best bk)
  case Nil then show ?case by simp
next
  case (Cons x xs)
  then obtain k where k: "key x = Inr k" by auto
  from Cons.IH[of x k] Cons.IH[of best bk] Cons.prems k show ?case
    by (cases "float_gt k bk") auto
qed

lemma max_by_key_member:
  "xs \<noteq> [] \<Longrightarrow> \<forall>x\<in>set xs. \<exists>k. key x = Inr k \<Longrightarrow> \<exists>m. max_by_key key xs = Inr m \<and> m \<in> set xs"
proof (cases xs)
  case Nil then show "xs \<noteq> [] \<Longrightarrow> ?thesis" by simp
next
  case (Cons x rest)
  assume all: "\<forall>x\<in>set xs. \<exists>k. key x = Inr k"
  then obtain k where k: "key x = Inr k" using Cons by auto
  from all Cons have "\<forall>y\<in>set rest. \<exists>k. key y = Inr k" by simp
  from max_loop_member[OF this, of x k] k Cons show ?thesis
    by (auto simp: max_by_key_def)
qed

text \<open>
  Claim C5 says that for every corpus and every set of constraints the selector returns a
  word or fails for want of candidates.  The code has another outcome: a position that is
  no index of a corpus word raises \<^verbatim>\<open>IndexError\<close> in \<^verbatim>\<open>is_satisfied\<close>, and
  \<^verbatim>\<open>get_word_to_guess\<close> lets it pass.  Here the corpus is one five-letter word and the
  constraint names position 5.
\<close>

theorem candidate_selector_raises:
  "get_word_to_guess example_iteration [''later'']
      [\<lparr>char = CHR ''l'', positions = [5], type = IN_SOME_POSITION\<rparr>] = Inl IndexError"
  by code_simp

text \<open>
  Claim C5 as the code has it.  Let the corpus be as the specification has it, every
  letter of its words with an entry in the frequency table, and let every position of
  every constraint be a valid index of every corpus word.  Then, whatever the iteration
  order of Python's sets: if some corpus word
  satisfies all constraints, \<^verbatim>\<open>get_word_to_guess\<close> returns a member of the corpus that
  satisfies all of them; if none does, it raises the \<^verbatim>\<open>ValueError\<close> of \<^verbatim>\<open>max\<close> on
  an empty sequence.
\<close>

theorem candidate_selector_sound:
  assumes "\<forall>w\<in>set words. \<forall>k\<in>set constraints. \<forall>p\<in>set (positions k).
             - int (length w) \<le> p \<and> p < int (length w)"
    and "\<forall>w\<in>set words. set w \<subseteq> dom CHAR_TO_FREQUENCY"
  shows "if \<exists>w\<in>set words. \<forall>k\<in>set constraints. is_satisfied k w = Inr True
         then \<exists>w. get_word_to_guess it words constraints = Inr w \<and> w \<in> set words
                  \<and> (\<forall>k\<in>set constraints. is_satisfied k w = Inr True)
         else get_word_to_guess it words constraints = Inl (ValueError EmptySequence)"
proof -
  let ?ok = "\<lambda>w. \<forall>k\<in>set constraints. is_satisfied k w = Inr True"
  have fw: "filter_words words constraints = Inr (filter ?ok words)"
    using assms(1) by (intro filter_words_total) (simp add: valid_index_def)
  show ?thesis
  proof (cases "\<exists>w\<in>set words. ?ok w")
    case True
    then have ne: "filter ?ok words \<noteq> []"
      by (simp add: filter_empty_conv)
    have "\<forall>x\<in>set (filter ?ok words). \<exists>k. get_frequency_score it x = Inr k"
      using assms(2) by (simp add: get_frequency_score_total)
    from max_by_key_member[OF ne this] obtain m
      where "max_by_key (get_frequency_score it) (filter ?ok words) = Inr m"
        and "m \<in> set (filter ?ok words)" by blast
    with True fw show ?thesis
      by (auto simp: get_word_to_guess_def)
  next
    case False
    then have "filter ?ok words = []"
      by (simp add: filter_empty_conv)
    with False fw show ?thesis
      by (simp add: get_word_to_guess_def max_by_key_def)
  qed
qed

lemma dom_CHAR_TO_FREQUENCY: "dom CHAR_TO_FREQUENCY = ALL_CHARS"
  unfolding CHAR_TO_FREQUENCY_def ALL_CHARS_def dom_map_of_conv_image_fst by simp

theorem candidate_selector_sound_witness:
  "get_word_to_guess example_iteration [''later'', ''eerie'']
        [\<lparr>char = CHR ''e'', positions = [0, 1], type = IN_SOME_POSITION\<rparr>] = Inr ''eerie''
   \<and> (\<exists>w. get_word_to_guess example_iteration [''later'', ''eerie'']
              [\<lparr>char = CHR ''e'', positions = [0, 1], type = IN_SOME_POSITION\<rparr>] = Inr w
          \<and> w \<in> set [''later'', ''eerie'']
          \<and> (\<forall>k\<in>set [\<lparr>char = CHR ''e'', positions = [0, 1], type = IN_SOME_POSITION\<rparr>].
                 is_satisfied k w = Inr True))"
proof -
  let ?ws = "[''later'', ''eerie'']"
  let ?ks = "[\<lparr>char = CHR ''e'', positions = [0, 1], type = IN_SOME_POSITION\<rparr>]"
  have h1: "\<forall>w\<in>set ?ws. \<forall>k\<in>set ?ks. \<forall>p\<in>set (positions k).
              - int (length w) \<le> p \<and> p < int (length w)"
    by simp
  have h2: "\<forall>w\<in>set ?ws. set w \<subseteq> dom CHAR_TO_FREQUENCY"
    by (simp add: dom_CHAR_TO_FREQUENCY ALL_CHARS_def)
  have c: "\<exists>w\<in>set ?ws. \<forall>k\<in>set ?ks. is_satisfied k w = Inr True"
    by code_simp
  have v: "get_word_to_guess example_iteration ?ws ?ks = Inr ''eerie''"
    by code_simp
  show ?thesis
    using candidate_selector_sound [OF h1 h2, where it = example_iteration] h1 h2 c v by simp
qed

subsection \<open>Rounding\<close>

lemma value_of_Double [simp]: "value_of (Double m e) = of_int m * 2 powi e"
  by (simp add: value_of_def)







subsection \<open>The score and the exact sum of the weights\<close>










section \<open>Properties of the constraint updater\<close>

lemma update_loop_append:
  "update_loop guess L (xs @ ys) ks =
     (case update_loop guess L xs ks of Inl e \<Rightarrow> Inl e | Inr ks' \<Rightarrow> update_loop guess L ys ks')"
  by (induction xs arbitrary: ks) (simp_all split: sum.splits)

lemma two_occurrences:
  assumes "i < length xs" "j < length xs" "i \<noteq> j" "xs ! j = xs ! i"
  shows "count_list xs (xs ! i) > 1"
proof -
  let ?S = "{k. k < length xs \<and> xs ! k = xs ! i}"
  have "count_list xs x = length (filter (\<lambda>y. y = x) xs)" for x
    by (induction xs) auto
  then have "count_list xs (xs ! i) = length (filter (\<lambda>y. y = xs ! i) xs)" .
  also have "\<dots> = card ?S"
    by (simp add: length_filter_conv_card)
  finally have eq: "count_list xs (xs ! i) = card ?S" .
  have "{i, j} \<subseteq> ?S" using assms by simp
  moreover have "finite ?S" by simp
  ultimately have "card {i, j} \<le> card ?S" by (rule card_mono[rotated])
  with assms(3) eq show ?thesis by simp
qed

lemma set_drop_enumerate:
  assumes "p \<in> set (drop m (enumerate 0 xs))"
  shows "m \<le> fst p \<and> fst p < length xs \<and> snd p = xs ! fst p \<and> snd p \<in> set (drop m xs)"
proof -
  from assms obtain k where k: "k < length (drop m (enumerate 0 xs))"
    and p: "drop m (enumerate 0 xs) ! k = p"
    by (auto simp: in_set_conv_nth)
  then have "m + k < length xs" by simp
  with p have "p = (m + k, xs ! (m + k))" by (simp add: nth_enumerate_eq)
  moreover have "xs ! (m + k) \<in> set (drop m xs)"
  proof -
    have "k < length (drop m xs)" using k by simp
    then have "drop m xs ! k \<in> set (drop m xs)" by (rule nth_mem)
    moreover have "drop m xs ! k = xs ! (m + k)"
      using \<open>m + k < length xs\<close> by simp
    ultimately show ?thesis by simp
  qed
  ultimately show ?thesis using \<open>m + k < length xs\<close> by simp
qed

lemma update_step_keeps:
  assumes "update_step guess L (j, ch) ks = Inr ks'" and "k \<in> set ks" and "char k = c"
    and "letter ch = c \<longrightarrow> colour ch \<noteq> Some GREEN \<and> char_is_duplicate guess c"
  shows "k \<in> set ks'"
  using assms
  by (auto simp: update_step_def split: option.splits Colour.splits if_splits)

lemma update_loop_keeps:
  assumes "update_loop guess L items ks = Inr ks'" and "k \<in> set ks" and "char k = c"
    and "\<forall>(j, ch)\<in>set items. letter ch = c \<longrightarrow> colour ch \<noteq> Some GREEN \<and> char_is_duplicate guess c"
  shows "k \<in> set ks'"
  using assms
proof (induction items arbitrary: ks)
  case Nil then show ?case by simp
next
  case (Cons item items)
  obtain j ch where item: "item = (j, ch)" by (cases item)
  from Cons.prems(1) obtain mid where step: "update_step guess L (j, ch) ks = Inr mid"
    and rest: "update_loop guess L items mid = Inr ks'"
    by (auto simp: item split: sum.splits)
  have "k \<in> set mid"
    using update_step_keeps[OF step Cons.prems(2,3)] Cons.prems(4) item by simp
  from Cons.IH[OF rest this Cons.prems(3)] Cons.prems(4) show ?case by simp
qed

lemma update_step_other_letter:
  assumes "update_step guess L (j, ch) ks = Inr ks'" and "letter ch \<noteq> c"
  shows "filter (\<lambda>k. char k = c) ks' = filter (\<lambda>k. char k = c) ks"
proof -
  have "filter (\<lambda>k. char k = c) (filter (\<lambda>k. char k \<noteq> letter ch) ks) = filter (\<lambda>k. char k = c) ks"
    using assms(2) by (auto intro: filter_cong)
  with assms show ?thesis
    by (auto simp: update_step_def split: option.splits Colour.splits if_splits)
qed

lemma update_loop_other_letters:
  assumes "update_loop guess L items ks = Inr ks'" and "\<forall>(j, ch)\<in>set items. letter ch \<noteq> c"
  shows "filter (\<lambda>k. char k = c) ks' = filter (\<lambda>k. char k = c) ks"
  using assms
proof (induction items arbitrary: ks)
  case Nil then show ?case by simp
next
  case (Cons item items)
  obtain j ch where item: "item = (j, ch)" by (cases item)
  from Cons.prems(1) obtain mid where step: "update_step guess L (j, ch) ks = Inr mid"
    and rest: "update_loop guess L items mid = Inr ks'"
    by (auto simp: item split: sum.splits)
  have "filter (\<lambda>k. char k = c) mid = filter (\<lambda>k. char k = c) ks"
    using update_step_other_letter[OF step] Cons.prems(2) item by simp
  with Cons.IH[OF rest] Cons.prems(2) show ?case by simp
qed

text \<open>
  Claim C3 says, for a position \<open>i\<close> that carries a Grey letter \<open>c\<close> occurring more
  than once in the guess, that the updater adds only "\<open>c\<close> not at \<open>i\<close>" and preserves
  the existing constraints on \<open>c\<close>.  That holds for the iteration at position \<open>i\<close>, not
  for what \<^verbatim>\<open>update_constraints\<close> returns: a later Green \<open>c\<close> removes every constraint on
  \<open>c\<close>, by design of the Green branch.  For the guess \<^verbatim>\<open>sassy\<close> against \<^verbatim>\<open>class\<close> the
  colours are Yellow, Yellow, Grey, Green, Grey; position 2 carries a Grey \<^verbatim>\<open>s\<close>, one of
  three, and the result holds neither the input constraint on \<^verbatim>\<open>s\<close> nor
  "\<^verbatim>\<open>s\<close> not at 2".
\<close>

theorem later_green_erases_grey_duplicate:
  "colour (chars (create_from_word ''sassy'' ''class'') ! 2) = Some GREY
   \<and> letter (chars (create_from_word ''sassy'' ''class'') ! 2) = CHR ''s''
   \<and> count_list (map letter (chars (create_from_word ''sassy'' ''class''))) (CHR ''s'') = 3
   \<and> update_constraints [\<lparr>char = CHR ''s'', positions = [1], type = NOT_IN_POSITIONS\<rparr>]
        (create_from_word ''sassy'' ''class'') 5
       = Inr [\<lparr>char = CHR ''a'', positions = [0, 2, 3, 4], type = IN_SOME_POSITION\<rparr>,
              \<lparr>char = CHR ''a'', positions = [1], type = NOT_IN_POSITIONS\<rparr>,
              \<lparr>char = CHR ''s'', positions = [3], type = IN_SOME_POSITION\<rparr>,
              \<lparr>char = CHR ''y'', positions = [0, 1, 2, 3, 4], type = NOT_IN_POSITIONS\<rparr>]"
  by code_simp

text \<open>
  Claim C3 as the code has it.  Let position \<open>i\<close> carry a Grey letter \<open>c\<close> and let
  \<^verbatim>\<open>update_constraints\<close> return \<open>result\<close>.  The loop reaches position \<open>i\<close> with a
  working list, and the result is what the remaining positions make of the list the
  iteration at \<open>i\<close> leaves: the working list with "\<open>c\<close> not at \<open>i\<close>" appended and
  nothing removed, if \<open>c\<close> occurs more than once in the guess; the working list without
  its constraints on \<open>c\<close> and with "\<open>c\<close> at none of \<open>0, ..., L - 1\<close>" appended, if
  \<open>c\<close> occurs once.  In the result: if \<open>c\<close> occurs once, that ban is the only constraint
  on \<open>c\<close>; if \<open>c\<close> occurs more than once, "\<open>c\<close> not at \<open>i\<close>" is there provided no
  later position carries a Green \<open>c\<close>, and every input constraint on \<open>c\<close> is there
  provided no position carries a Green \<open>c\<close>.
\<close>

theorem grey_letter_in_result:
  assumes "i < length (chars guess)"
    and "colour (chars guess ! i) = Some GREY"
    and "letter (chars guess ! i) = c"
    and "update_constraints constraints guess L = Inr result"
  shows "\<exists>working.
           update_loop guess L (take i (enumerate 0 (chars guess))) constraints = Inr working
         \<and> update_constraints constraints guess L =
             update_loop guess L (drop (Suc i) (enumerate 0 (chars guess)))
               (if count_list (map letter (chars guess)) c > 1
                then working @ [\<lparr>char = c, positions = [int i], type = NOT_IN_POSITIONS\<rparr>]
                else filter (\<lambda>k. char k \<noteq> c) working
                     @ [\<lparr>char = c, positions = [0..L - 1], type = NOT_IN_POSITIONS\<rparr>])
         \<and> (if count_list (map letter (chars guess)) c > 1
            then ((\<forall>ch\<in>set (drop (Suc i) (chars guess)). letter ch = c \<longrightarrow> colour ch \<noteq> Some GREEN)
                    \<longrightarrow> \<lparr>char = c, positions = [int i], type = NOT_IN_POSITIONS\<rparr> \<in> set result)
               \<and> ((\<forall>ch\<in>set (chars guess). letter ch = c \<longrightarrow> colour ch \<noteq> Some GREEN)
                    \<longrightarrow> (\<forall>k\<in>set constraints. char k = c \<longrightarrow> k \<in> set result))
            else filter (\<lambda>k. char k = c) result
                   = [\<lparr>char = c, positions = [0..L - 1], type = NOT_IN_POSITIONS\<rparr>])"
proof -
  let ?items = "enumerate 0 (chars guess)"
  let ?rest = "drop (Suc i) ?items"
  let ?local = "\<lparr>char = c, positions = [int i], type = NOT_IN_POSITIONS\<rparr>"
  let ?global = "\<lparr>char = c, positions = [0..L - 1], type = NOT_IN_POSITIONS\<rparr>"
  let ?dup = "count_list (map letter (chars guess)) c > 1"
  have whole: "update_loop guess L ?items constraints = Inr result"
    using assms(4) by (simp add: update_constraints_def)
  have "?items = take i ?items @ ?items ! i # ?rest"
    using assms(1) by (simp add: id_take_nth_drop)
  then have split: "?items = take i ?items @ (i, chars guess ! i) # ?rest"
    using assms(1) by (simp add: nth_enumerate_eq)
  from whole obtain working
    where before: "update_loop guess L (take i ?items) constraints = Inr working"
      and from_i: "update_loop guess L ((i, chars guess ! i) # ?rest) working = Inr result"
    by (subst (asm) split) (auto simp: update_loop_append split: sum.splits)
  define after where "after = (if ?dup then working @ [?local]
                                else filter (\<lambda>k. char k \<noteq> c) working @ [?global])"
  have step: "update_step guess L (i, chars guess ! i) working = Inr after"
    using assms(2,3) by (simp add: update_step_def char_is_duplicate_def after_def)
  with from_i have rest: "update_loop guess L ?rest after = Inr result"
    by simp
  have later: "j \<ge> Suc i \<and> j < length (chars guess) \<and> ch = chars guess ! j
                 \<and> ch \<in> set (drop (Suc i) (chars guess))"
    if "(j, ch) \<in> set ?rest" for j ch
    using set_drop_enumerate[OF that] by auto
  have result_dup_local: "?local \<in> set result"
    if dup: ?dup
      and no: "\<forall>ch\<in>set (drop (Suc i) (chars guess)). letter ch = c \<longrightarrow> colour ch \<noteq> Some GREEN"
  proof -
    have "?local \<in> set after" using dup by (simp add: after_def)
    moreover have "\<forall>(j, ch)\<in>set ?rest.
        letter ch = c \<longrightarrow> colour ch \<noteq> Some GREEN \<and> char_is_duplicate guess c"
      using later no dup by (auto simp: char_is_duplicate_def)
    ultimately show ?thesis
      using update_loop_keeps[OF rest, of ?local c] by simp
  qed
  have result_dup_input: "k \<in> set result"
    if dup: ?dup
      and no: "\<forall>ch\<in>set (chars guess). letter ch = c \<longrightarrow> colour ch \<noteq> Some GREEN"
      and k: "k \<in> set constraints" "char k = c" for k
  proof -
    have "\<forall>(j, ch)\<in>set ?items.
        letter ch = c \<longrightarrow> colour ch \<noteq> Some GREEN \<and> char_is_duplicate guess c"
      using no dup by (auto simp: char_is_duplicate_def in_set_enumerate_eq)
    from update_loop_keeps[OF whole k this] show ?thesis .
  qed
  have result_once: "filter (\<lambda>k. char k = c) result = [?global]" if once: "\<not> ?dup"
  proof -
    have "letter ch \<noteq> c" if "(j, ch) \<in> set ?rest" for j ch
    proof
      assume eq: "letter ch = c"
      from later[OF that] have j: "j \<noteq> i" "j < length (chars guess)" "ch = chars guess ! j"
        by auto
      have "count_list (map letter (chars guess)) (map letter (chars guess) ! i) > 1"
        by (rule two_occurrences[of i _ j]) (use assms(1,3) j eq in simp_all)
      with assms(1,3) once show False by simp
    qed
    then have "\<forall>(j, ch)\<in>set ?rest. letter ch \<noteq> c" by auto
    from update_loop_other_letters[OF rest this]
    have "filter (\<lambda>k. char k = c) result = filter (\<lambda>k. char k = c) after" .
    also have "\<dots> = [?global]" using once by (simp add: after_def)
    finally show ?thesis .
  qed
  have "update_constraints constraints guess L = update_loop guess L ?rest after"
    using rest assms(4) by simp
  with before result_dup_local result_dup_input result_once show ?thesis
    unfolding after_def by (intro exI[of _ working]) auto
qed

theorem grey_letter_in_result_witness:
  "(\<exists>result.
      update_constraints [\<lparr>char = CHR ''o'', positions = [3], type = NOT_IN_POSITIONS\<rparr>]
        (create_from_word ''boots'' ''piano'') 5 = Inr result
    \<and> \<lparr>char = CHR ''o'', positions = [2], type = NOT_IN_POSITIONS\<rparr> \<in> set result
    \<and> \<lparr>char = CHR ''o'', positions = [3], type = NOT_IN_POSITIONS\<rparr> \<in> set result)
   \<and> (\<exists>result.
      update_constraints [\<lparr>char = CHR ''t'', positions = [3], type = NOT_IN_POSITIONS\<rparr>]
        (create_from_word ''boots'' ''piano'') 5 = Inr result
    \<and> filter (\<lambda>k. char k = CHR ''t'') result
        = [\<lparr>char = CHR ''t'', positions = [0, 1, 2, 3, 4], type = NOT_IN_POSITIONS\<rparr>])"
proof -
  let ?g = "create_from_word ''boots'' ''piano''"
  let ?ko = "\<lparr>char = CHR ''o'', positions = [3], type = NOT_IN_POSITIONS\<rparr>"
  let ?kt = "\<lparr>char = CHR ''t'', positions = [3], type = NOT_IN_POSITIONS\<rparr>"
  have o1: "2 < length (chars ?g)" by code_simp
  have o2: "colour (chars ?g ! 2) = Some GREY" by code_simp
  have o3: "letter (chars ?g ! 2) = CHR ''o''" by code_simp
  let ?ro = "[?ko,
              \<lparr>char = CHR ''b'', positions = [0, 1, 2, 3, 4], type = NOT_IN_POSITIONS\<rparr>,
              \<lparr>char = CHR ''o'', positions = [0, 2, 3, 4], type = IN_SOME_POSITION\<rparr>,
              \<lparr>char = CHR ''o'', positions = [1], type = NOT_IN_POSITIONS\<rparr>,
              \<lparr>char = CHR ''o'', positions = [2], type = NOT_IN_POSITIONS\<rparr>,
              \<lparr>char = CHR ''t'', positions = [0, 1, 2, 3, 4], type = NOT_IN_POSITIONS\<rparr>,
              \<lparr>char = CHR ''s'', positions = [0, 1, 2, 3, 4], type = NOT_IN_POSITIONS\<rparr>]"
  have o4: "update_constraints [?ko] ?g 5 = Inr ?ro" by code_simp
  have o5: "count_list (map letter (chars ?g)) (CHR ''o'') > 1" by code_simp
  have o6: "\<forall>ch\<in>set (drop (Suc 2) (chars ?g)). letter ch = CHR ''o'' \<longrightarrow> colour ch \<noteq> Some GREEN"
    by code_simp
  have o7: "\<forall>ch\<in>set (chars ?g). letter ch = CHR ''o'' \<longrightarrow> colour ch \<noteq> Some GREEN"
    by code_simp
  have t1: "3 < length (chars ?g)" by code_simp
  have t2: "colour (chars ?g ! 3) = Some GREY" by code_simp
  have t3: "letter (chars ?g ! 3) = CHR ''t''" by code_simp
  let ?rt = "[\<lparr>char = CHR ''b'', positions = [0, 1, 2, 3, 4], type = NOT_IN_POSITIONS\<rparr>,
              \<lparr>char = CHR ''o'', positions = [0, 2, 3, 4], type = IN_SOME_POSITION\<rparr>,
              \<lparr>char = CHR ''o'', positions = [1], type = NOT_IN_POSITIONS\<rparr>,
              \<lparr>char = CHR ''o'', positions = [2], type = NOT_IN_POSITIONS\<rparr>,
              \<lparr>char = CHR ''t'', positions = [0, 1, 2, 3, 4], type = NOT_IN_POSITIONS\<rparr>,
              \<lparr>char = CHR ''s'', positions = [0, 1, 2, 3, 4], type = NOT_IN_POSITIONS\<rparr>]"
  have t4: "update_constraints [?kt] ?g 5 = Inr ?rt" by code_simp
  have t5: "\<not> count_list (map letter (chars ?g)) (CHR ''t'') > 1" by code_simp
  have up: "[0..5 - 1] = [0, 1, 2, 3, 4 :: int]" by code_simp
  from grey_letter_in_result [OF o1 o2 o3 o4] o5 o6 o7
  have a: "\<lparr>char = CHR ''o'', positions = [2], type = NOT_IN_POSITIONS\<rparr> \<in> set ?ro \<and> ?ko \<in> set ?ro"
    by auto
  from grey_letter_in_result [OF t1 t2 t3 t4] t5 up
  have b: "filter (\<lambda>k. char k = CHR ''t'') ?rt
        = [\<lparr>char = CHR ''t'', positions = [0, 1, 2, 3, 4], type = NOT_IN_POSITIONS\<rparr>]"
    by auto
  show ?thesis using o4 t4 a b by blast
qed

lemma update_step_within_bounds:
  assumes "int i < L"
    and "\<forall>k\<in>set ks. within_bounds L k"
    and "update_step guess L (i, ch) ks = Inr ks'"
  shows "\<forall>k\<in>set ks'. within_bounds L k"
  using assms
  by (auto simp: update_step_def within_bounds_def split: option.splits Colour.splits if_splits)

lemma update_step_nonempty:
  assumes "int i < L"
    and "L = 1 \<longrightarrow> colour ch \<noteq> Some YELLOW"
    and "\<forall>k\<in>set ks. positions k \<noteq> []"
    and "update_step guess L (i, ch) ks = Inr ks'"
  shows "\<forall>k\<in>set ks'. positions k \<noteq> []"
proof -
  have all: "[0..L - 1] \<noteq> []" using assms(1) by (simp add: upto.simps)
  have "filter (\<lambda>j. j \<noteq> int i) [0..L - 1] \<noteq> []" if "L \<noteq> 1"
  proof -
    from that assms(1) have "2 \<le> L" by simp
    then have "(if int i = 0 then 1 else 0) \<in> set [0..L - 1]" by simp
    moreover have "(if int i = 0 then 1 else 0) \<noteq> int i" by simp
    ultimately show ?thesis
      unfolding filter_empty_conv by blast
  qed
  with all assms(2-) show ?thesis
    by (auto simp: update_step_def split: option.splits Colour.splits if_splits)
qed

lemma update_loop_within_bounds:
  assumes "\<forall>(i, ch)\<in>set items. int i < L"
    and "\<forall>k\<in>set ks. within_bounds L k"
    and "update_loop guess L items ks = Inr ks'"
  shows "\<forall>k\<in>set ks'. within_bounds L k"
  using assms
proof (induction items arbitrary: ks)
  case Nil then show ?case by simp
next
  case (Cons item items)
  obtain i ch where item: "item = (i, ch)" by (cases item)
  from Cons.prems(3) obtain mid where step: "update_step guess L (i, ch) ks = Inr mid"
    and rest: "update_loop guess L items mid = Inr ks'"
    by (auto simp: item split: sum.splits)
  have "\<forall>k\<in>set mid. within_bounds L k"
    using update_step_within_bounds[OF _ Cons.prems(2) step] Cons.prems(1) item by simp
  from Cons.IH[OF _ this rest] Cons.prems(1) show ?case by simp
qed

lemma update_loop_nonempty:
  assumes "\<forall>(i, ch)\<in>set items. int i < L \<and> (L = 1 \<longrightarrow> colour ch \<noteq> Some YELLOW)"
    and "\<forall>k\<in>set ks. positions k \<noteq> []"
    and "update_loop guess L items ks = Inr ks'"
  shows "\<forall>k\<in>set ks'. positions k \<noteq> []"
  using assms
proof (induction items arbitrary: ks)
  case Nil then show ?case by simp
next
  case (Cons item items)
  obtain i ch where item: "item = (i, ch)" by (cases item)
  from Cons.prems(3) obtain mid where step: "update_step guess L (i, ch) ks = Inr mid"
    and rest: "update_loop guess L items mid = Inr ks'"
    by (auto simp: item split: sum.splits)
  have "\<forall>k\<in>set mid. positions k \<noteq> []"
    using update_step_nonempty[OF _ _ Cons.prems(2) step] Cons.prems(1) item by simp
  from Cons.IH[OF _ this rest] Cons.prems(1) show ?case by simp
qed

lemma within_bounds_no_IndexError:
  assumes "within_bounds L k" and "int (length word) = L"
  shows "\<exists>b. is_satisfied k word = Inr b"
proof -
  have "\<forall>p\<in>set (positions k). valid_index word p"
    using assms by (auto simp: within_bounds_def valid_index_def)
  then show ?thesis by (rule is_satisfied_total)
qed

text \<open>
  Claim C10 says that every constraint \<^verbatim>\<open>update_constraints\<close> produces has a
  non-empty set of positions inside \<open>{0, ..., word_length - 1}\<close>.  The set is empty for
  a Yellow letter when \<^verbatim>\<open>word_length\<close> is 1: \<^verbatim>\<open>{j for j in range(1) if j != 0}\<close>.
  A guess of length 1 with a Yellow letter is what \<^verbatim>\<open>create_from_word("a", "ba")\<close>
  returns.
\<close>

theorem yellow_in_one_letter_word:
  "int (length (chars (create_from_word ''a'' ''ba''))) = 1
   \<and> update_constraints [] (create_from_word ''a'' ''ba'') 1
       = Inr [\<lparr>char = CHR ''a'', positions = [], type = IN_SOME_POSITION\<rparr>,
              \<lparr>char = CHR ''a'', positions = [0], type = NOT_IN_POSITIONS\<rparr>]"
  by code_simp

text \<open>
  Claim C10 as the code has it.  Let the guess have \<open>L\<close> letters and let every input
  constraint have a non-empty set of positions inside \<open>{0, ..., L - 1}\<close>.  Then every
  constraint of the list \<^verbatim>\<open>update_constraints\<close> returns has its positions inside
  \<open>{0, ..., L - 1}\<close>; the set is non-empty unless \<open>L = 1\<close> and the guess has a Yellow
  letter; and \<^verbatim>\<open>is_satisfied\<close> returns a truth value, without \<^verbatim>\<open>IndexError\<close>, on
  every word of length \<open>L\<close>.
\<close>

theorem produced_positions_in_range:
  assumes "int (length (chars guess)) = L"
    and "\<forall>k\<in>set constraints. positions k \<noteq> [] \<and> (\<forall>p\<in>set (positions k). 0 \<le> p \<and> p < L)"
    and "update_constraints constraints guess L = Inr constraints'"
  shows "\<forall>k\<in>set constraints'.
           (\<forall>p\<in>set (positions k). 0 \<le> p \<and> p < L)
         \<and> ((L = 1 \<longrightarrow> (\<forall>ch\<in>set (chars guess). colour ch \<noteq> Some YELLOW)) \<longrightarrow> positions k \<noteq> [])
         \<and> (\<forall>word. int (length word) = L \<longrightarrow> (\<exists>b. is_satisfied k word = Inr b))"
proof -
  have idx: "\<forall>(i, ch)\<in>set (enumerate 0 (chars guess)). int i < L"
    using assms(1) by (auto simp: in_set_enumerate_eq)
  have loop: "update_loop guess L (enumerate 0 (chars guess)) constraints = Inr constraints'"
    using assms(3) by (simp add: update_constraints_def)
  have wb: "\<forall>k\<in>set constraints'. within_bounds L k"
    using update_loop_within_bounds[OF idx _ loop] assms(2) by (simp add: within_bounds_def)
  have ne: "\<forall>k\<in>set constraints'. positions k \<noteq> []"
    if "L = 1 \<longrightarrow> (\<forall>ch\<in>set (chars guess). colour ch \<noteq> Some YELLOW)"
  proof -
    have "\<forall>(i, ch)\<in>set (enumerate 0 (chars guess)).
            int i < L \<and> (L = 1 \<longrightarrow> colour ch \<noteq> Some YELLOW)"
      using idx that by (auto simp: in_set_enumerate_eq)
    from update_loop_nonempty[OF this _ loop] assms(2) show ?thesis by simp
  qed
  show ?thesis
  proof (rule ballI)
    fix k assume k: "k \<in> set constraints'"
    have a: "\<forall>p\<in>set (positions k). 0 \<le> p \<and> p < L"
      using wb k by (simp add: within_bounds_def)
    have b: "positions k \<noteq> []"
      if "L = 1 \<longrightarrow> (\<forall>ch\<in>set (chars guess). colour ch \<noteq> Some YELLOW)"
      using ne[OF that] k by simp
    have c: "\<exists>b. is_satisfied k word = Inr b" if "int (length word) = L" for word
      using within_bounds_no_IndexError[OF _ that] wb k by simp
    show "(\<forall>p\<in>set (positions k). 0 \<le> p \<and> p < L)
         \<and> ((L = 1 \<longrightarrow> (\<forall>ch\<in>set (chars guess). colour ch \<noteq> Some YELLOW)) \<longrightarrow> positions k \<noteq> [])
         \<and> (\<forall>word. int (length word) = L \<longrightarrow> (\<exists>b. is_satisfied k word = Inr b))"
      using a b c by blast
  qed
qed

theorem produced_positions_in_range_witness:
  "update_constraints [\<lparr>char = CHR ''s'', positions = [4], type = NOT_IN_POSITIONS\<rparr>]
      (create_from_word ''boots'' ''piano'') 5
     = Inr [\<lparr>char = CHR ''b'', positions = [0, 1, 2, 3, 4], type = NOT_IN_POSITIONS\<rparr>,
            \<lparr>char = CHR ''o'', positions = [0, 2, 3, 4], type = IN_SOME_POSITION\<rparr>,
            \<lparr>char = CHR ''o'', positions = [1], type = NOT_IN_POSITIONS\<rparr>,
            \<lparr>char = CHR ''o'', positions = [2], type = NOT_IN_POSITIONS\<rparr>,
            \<lparr>char = CHR ''t'', positions = [0, 1, 2, 3, 4], type = NOT_IN_POSITIONS\<rparr>,
            \<lparr>char = CHR ''s'', positions = [0, 1, 2, 3, 4], type = NOT_IN_POSITIONS\<rparr>]
   \<and> list_all (\<lambda>k. list_all (\<lambda>p. 0 \<le> p \<and> p < 5) (positions k) \<and> positions k \<noteq> []
                   \<and> (\<exists>b. is_satisfied k ''piano'' = Inr b))
        [\<lparr>char = CHR ''b'', positions = [0, 1, 2, 3, 4], type = NOT_IN_POSITIONS\<rparr>,
         \<lparr>char = CHR ''o'', positions = [0, 2, 3, 4], type = IN_SOME_POSITION\<rparr>,
         \<lparr>char = CHR ''o'', positions = [1], type = NOT_IN_POSITIONS\<rparr>,
         \<lparr>char = CHR ''o'', positions = [2], type = NOT_IN_POSITIONS\<rparr>,
         \<lparr>char = CHR ''t'', positions = [0, 1, 2, 3, 4], type = NOT_IN_POSITIONS\<rparr>,
         \<lparr>char = CHR ''s'', positions = [0, 1, 2, 3, 4], type = NOT_IN_POSITIONS\<rparr>]"
proof -
  let ?g = "create_from_word ''boots'' ''piano''"
  let ?ks = "[\<lparr>char = CHR ''s'', positions = [4], type = NOT_IN_POSITIONS\<rparr>]"
  let ?out = "[\<lparr>char = CHR ''b'', positions = [0, 1, 2, 3, 4], type = NOT_IN_POSITIONS\<rparr>,
            \<lparr>char = CHR ''o'', positions = [0, 2, 3, 4], type = IN_SOME_POSITION\<rparr>,
            \<lparr>char = CHR ''o'', positions = [1], type = NOT_IN_POSITIONS\<rparr>,
            \<lparr>char = CHR ''o'', positions = [2], type = NOT_IN_POSITIONS\<rparr>,
            \<lparr>char = CHR ''t'', positions = [0, 1, 2, 3, 4], type = NOT_IN_POSITIONS\<rparr>,
            \<lparr>char = CHR ''s'', positions = [0, 1, 2, 3, 4], type = NOT_IN_POSITIONS\<rparr>]"
  have h1: "int (length (chars ?g)) = 5" by code_simp
  have h2: "\<forall>k\<in>set ?ks. positions k \<noteq> [] \<and> (\<forall>p\<in>set (positions k). 0 \<le> p \<and> p < 5)"
    by simp
  have h3: "update_constraints ?ks ?g 5 = Inr ?out" by code_simp
  have len: "int (length ''piano'') = 5" by simp
  from produced_positions_in_range [OF h1 h2 h3] len
  have "\<forall>k\<in>set ?out. (\<forall>p\<in>set (positions k). 0 \<le> p \<and> p < 5) \<and> positions k \<noteq> []
           \<and> (\<exists>b. is_satisfied k ''piano'' = Inr b)"
    by fastforce
  then show ?thesis using h3 by (simp add: list_all_iff)
qed

section \<open>Properties of the orchestrator\<close>

subsection \<open>What the colours of a guess say about the solution\<close>

lemma process_remaining_other:
  "i \<noteq> j \<Longrightarrow> process_remaining sol j cs ! i = cs ! i"
  by (simp add: process_remaining_def Let_def)

lemma fold_process_untouched:
  "i \<notin> set js \<Longrightarrow> fold (process_remaining sol) js cs ! i = cs ! i"
  by (induction js arbitrary: cs) (simp_all add: process_remaining_other)

lemma fold_process_keeps_colour:
  "colour (cs ! j) \<noteq> None \<Longrightarrow> colour (fold (process_remaining sol) js cs ! j) = colour (cs ! j)"
  by (induction js arbitrary: cs) (simp_all add: process_remaining_keeps_colour)

text \<open>The list on which the second loop works when it reaches position \<open>i\<close>.\<close>

lemma second_pass_split:
  assumes "i < length cs"
  shows "second_pass sol cs ! i
           = process_remaining sol i (fold (process_remaining sol) [0..<i] cs) ! i"
proof -
  let ?mid = "fold (process_remaining sol) [0..<i] cs"
  have "[0..<length cs] = [0..<i] @ i # [Suc i..<length cs]"
  proof -
    have "[0..<i + (length cs - i)] = [0..<i] @ [i..<i + (length cs - i)]"
      by (rule upt_add_eq_append) simp
    then have "[0..<length cs] = [0..<i] @ [i..<length cs]"
      using assms by simp
    then show ?thesis using assms by (simp add: upt_conv_Cons)
  qed
  then have "second_pass sol cs
               = fold (process_remaining sol) [Suc i..<length cs] (process_remaining sol i ?mid)"
    by (simp add: second_pass_def)
  moreover have "colour (process_remaining sol i ?mid ! i) \<noteq> None"
    using assms by (simp add: process_remaining_sets_colour)
  ultimately show ?thesis
    by (simp add: fold_process_untouched)
qed

lemma recognised_exists:
  "0 < num_instances_recognised_so_far cs l \<Longrightarrow>
   \<exists>j<length cs. letter (cs ! j) = l \<and> colour (cs ! j) \<in> {Some GREEN, Some YELLOW}"
proof -
  assume "0 < num_instances_recognised_so_far cs l"
  then have "filter (recognised l) cs \<noteq> []"
    by (simp add: num_recognised_alt)
  then obtain x where "x \<in> set cs" "recognised l x"
    by (auto simp: filter_empty_conv)
  then show ?thesis
    by (auto simp: in_set_conv_nth recognised_def)
qed

text \<open>What each final colour says about the solution, for words of equal length.\<close>

lemma create_from_word_letters:
  "length word = length sol \<Longrightarrow> map letter (chars (create_from_word word sol)) = word"
  by (rule nth_equalityI) (simp_all add: create_from_word_length create_from_word_letter)

lemma create_from_word_colour_cases:
  assumes len: "length word = length sol" and i: "i < length word"
  shows "case colour (chars (create_from_word word sol) ! i) of
           Some GREEN \<Rightarrow> word ! i = sol ! i
         | Some YELLOW \<Rightarrow> word ! i \<noteq> sol ! i \<and> word ! i \<in> set sol
         | Some GREY \<Rightarrow> word ! i \<noteq> sol ! i
                          \<and> (word ! i \<in> set sol \<longrightarrow> count_list word (word ! i) > 1)
         | None \<Rightarrow> False"
proof -
  let ?first = "first_pass word sol"
  let ?mid = "fold (process_remaining sol) [0..<i] ?first"
  have i': "i < length ?first" using len i by simp
  have fst_i: "?first ! i = \<lparr>letter = word ! i, colour = first_colour sol (word ! i) (sol ! i)\<rparr>"
    using len i by (simp add: first_pass_nth)
  have mid_i: "?mid ! i = ?first ! i"
    by (simp add: fold_process_untouched)
  have final: "chars (create_from_word word sol) ! i = process_remaining sol i ?mid ! i"
    using second_pass_split[OF i'] by (simp add: create_from_word_def)
  show ?thesis
  proof (cases "first_colour sol (word ! i) (sol ! i)")
    case (Some col)
    then have "colour (process_remaining sol i ?mid ! i) = Some col"
      using mid_i fst_i by (simp add: process_remaining_keeps_colour)
    with Some show ?thesis
      unfolding final by (auto simp: first_colour_def split: if_splits)
  next
    case None
    then have open_i: "word ! i \<noteq> sol ! i" "word ! i \<in> set sol"
      by (auto simp: first_colour_def split: if_splits)
    have midNone: "colour (?mid ! i) = None" and midLetter: "letter (?mid ! i) = word ! i"
      using None mid_i fst_i by simp_all
    let ?r = "num_instances_recognised_so_far ?mid (word ! i)"
    have col: "colour (process_remaining sol i ?mid ! i)
                 = Some (if ?r < count_list sol (word ! i) then YELLOW else GREY)"
      using midNone midLetter i' by (simp add: process_remaining_def Let_def)
    show ?thesis
    proof (cases "?r < count_list sol (word ! i)")
      case True
      with col open_i show ?thesis unfolding final by simp
    next
      case False
      have "0 < count_list sol (word ! i)"
        using open_i(2) by (metis count_list_0_iff gr0I)
      with False have "0 < ?r" by simp
      from recognised_exists[OF this] obtain j where j: "j < length ?mid"
        and lj: "letter (?mid ! j) = word ! i"
        and cj: "colour (?mid ! j) \<in> {Some GREEN, Some YELLOW}" by blast
      have "j \<noteq> i"
      proof
        assume "j = i"
        with cj have "colour (?mid ! i) \<in> {Some GREEN, Some YELLOW}" by blast
        then show False unfolding midNone by simp
      qed
      moreover have "word ! j = word ! i"
        using lj j len by (simp add: first_pass_nth)
      moreover have "j < length word" using j len by simp
      ultimately have "count_list word (word ! i) > 1"
        using two_occurrences[OF i, of j] by simp
      with False col open_i show ?thesis unfolding final by simp
    qed
  qed
qed

subsection \<open>The updater only records facts about the solution\<close>

lemma char_is_in_some_position_bounded:
  "\<forall>p\<in>set ps. 0 \<le> p \<and> p < int (length word) \<Longrightarrow>
   char_is_in_some_position word c ps = Inr (\<exists>p\<in>set ps. word ! nat p = c)"
  by (induction ps) (auto simp: getitem_def Let_def)

lemma is_satisfied_bounded:
  "within_bounds (int (length word)) k \<Longrightarrow>
   is_satisfied k word =
     Inr (case type k of
            IN_SOME_POSITION \<Rightarrow> \<exists>p\<in>set (positions k). word ! nat p = char k
          | NOT_IN_POSITIONS \<Rightarrow> \<not> (\<exists>p\<in>set (positions k). word ! nat p = char k))"
  by (simp add: is_satisfied_def within_bounds_def char_is_in_some_position_bounded
           split: ConstraintType.splits)

lemma known_here:
  "i < length sol \<Longrightarrow> sol ! i = c \<Longrightarrow>
   known sol \<lparr>char = c, positions = [int i], type = IN_SOME_POSITION\<rparr>"
  by (simp add: known_def is_satisfied_bounded within_bounds_def)

lemma known_not_here:
  "i < length sol \<Longrightarrow> sol ! i \<noteq> c \<Longrightarrow>
   known sol \<lparr>char = c, positions = [int i], type = NOT_IN_POSITIONS\<rparr>"
  by (simp add: known_def is_satisfied_bounded within_bounds_def)

lemma known_elsewhere:
  assumes "i < length sol" "sol ! i \<noteq> c" "c \<in> set sol"
  shows "known sol \<lparr>char = c, positions = filter (\<lambda>j. j \<noteq> int i) [0..int (length sol) - 1],
                     type = IN_SOME_POSITION\<rparr>"
proof -
  from assms(3) obtain j where j: "j < length sol" "sol ! j = c"
    by (auto simp: in_set_conv_nth)
  with assms(2) have "j \<noteq> i" by auto
  with j have "int j \<in> set (filter (\<lambda>j. j \<noteq> int i) [0..int (length sol) - 1])"
              "sol ! nat (int j) = c"
    by auto
  then have "\<exists>p\<in>set (filter (\<lambda>j. j \<noteq> int i) [0..int (length sol) - 1]). sol ! nat p = c"
    by blast
  then show ?thesis
    by (simp add: known_def is_satisfied_bounded within_bounds_def)
qed

lemma known_nowhere:
  assumes "c \<notin> set sol"
  shows "known sol \<lparr>char = c, positions = [0..int (length sol) - 1], type = NOT_IN_POSITIONS\<rparr>"
proof -
  have "sol ! nat p \<noteq> c" if "0 \<le> p" "p < int (length sol)" for p
    using assms that by (metis nat_less_iff nth_mem)
  then show ?thesis
    by (auto simp: known_def is_satisfied_bounded within_bounds_def)
qed

lemma update_step_sound:
  assumes len: "length word = length sol" and i: "i < length word"
    and inv: "\<forall>k\<in>set ks. known sol k"
  shows "\<exists>ks'. update_step (create_from_word word sol) (int (length sol))
                  (i, chars (create_from_word word sol) ! i) ks = Inr ks'
               \<and> (\<forall>k\<in>set ks'. known sol k)"
proof -
  let ?g = "create_from_word word sol"
  have i': "i < length sol" using len i by simp
  have lt: "letter (chars ?g ! i) = word ! i"
    using len i by (simp add: create_from_word_letter)
  have dup: "char_is_duplicate ?g c \<longleftrightarrow> count_list word c > 1" for c
    using len by (simp add: char_is_duplicate_def create_from_word_letters)
  note cases = create_from_word_colour_cases[OF len i]
  show ?thesis
  proof (cases "colour (chars ?g ! i)")
    case None
    with cases show ?thesis by simp
  next
    case (Some col)
    show ?thesis
    proof (cases col)
      case GREEN
      with Some cases have "sol ! i = word ! i" by simp
      from known_here[OF i' this] inv Some GREEN lt show ?thesis
        by (auto simp: update_step_def)
    next
      case YELLOW
      with Some cases have "sol ! i \<noteq> word ! i" "word ! i \<in> set sol" by auto
      from known_elsewhere[OF i' this] known_not_here[OF i' this(1)] inv Some YELLOW lt
      show ?thesis by (auto simp: update_step_def)
    next
      case GREY
      with Some cases have ne: "sol ! i \<noteq> word ! i"
        and once: "\<not> count_list word (word ! i) > 1 \<Longrightarrow> word ! i \<notin> set sol" by auto
      show ?thesis
      proof (cases "count_list word (word ! i) > 1")
        case True
        with known_not_here[OF i' ne] inv Some GREY lt dup show ?thesis
          by (auto simp: update_step_def)
      next
        case False
        with known_nowhere[OF once] inv Some GREY lt dup show ?thesis
          by (auto simp: update_step_def)
      qed
    qed
  qed
qed

lemma update_loop_sound:
  assumes len: "length word = length sol"
    and items: "\<forall>(i, ch)\<in>set items. i < length word \<and> ch = chars (create_from_word word sol) ! i"
    and inv: "\<forall>k\<in>set ks. known sol k"
  shows "\<exists>ks'. update_loop (create_from_word word sol) (int (length sol)) items ks = Inr ks'
               \<and> (\<forall>k\<in>set ks'. known sol k)"
  using items inv
proof (induction items arbitrary: ks)
  case Nil then show ?case by simp
next
  case (Cons item items)
  obtain i ch where item: "item = (i, ch)" by (cases item)
  with Cons.prems(1) have i: "i < length word" and ch: "ch = chars (create_from_word word sol) ! i"
    by auto
  from update_step_sound[OF len i Cons.prems(2)] obtain mid
    where st: "update_step (create_from_word word sol) (int (length sol)) (i, ch) ks = Inr mid"
      and mid: "\<forall>k\<in>set mid. known sol k"
    unfolding ch by blast
  from Cons.IH[OF _ mid] Cons.prems(1) st item show ?case by simp
qed

lemma update_constraints_sound:
  assumes "length word = length sol" and "\<forall>k\<in>set ks. known sol k"
  shows "\<exists>ks'. update_constraints ks (create_from_word word sol) (int (length sol)) = Inr ks'
               \<and> (\<forall>k\<in>set ks'. known sol k)"
proof -
  have "\<forall>(i, ch)\<in>set (enumerate 0 (chars (create_from_word word sol))).
          i < length word \<and> ch = chars (create_from_word word sol) ! i"
    using assms(1) by (auto simp: in_set_enumerate_eq create_from_word_length)
  from update_loop_sound[OF assms(1) this assms(2)] show ?thesis
    by (simp add: update_constraints_def)
qed

subsection \<open>The loop\<close>

lemma lower_char_small: "c \<in> ALL_CHARS \<Longrightarrow> lower_char c = c"
  by (auto simp: ALL_CHARS_def lower_char_def)

lemma lower_small: "set word \<subseteq> ALL_CHARS \<Longrightarrow> lower word = word"
  by (induction word) (simp_all add: lower_def lower_char_small)

lemma enter_word_accepts:
  assumes "length (guesses p) < MAX_NUM_GUESSES" "length word = WORD_LENGTH" "set word \<subseteq> ALL_CHARS"
  shows "enter_word p word
           = (Inr (create_from_word word (solution p)),
              p\<lparr>guesses := guesses p @ [create_from_word word (solution p)]\<rparr>)"
proof -
  have "set (lower word) - ALL_CHARS = {}"
    using assms(3) by (simp add: lower_small)
  with assms show ?thesis
    by (simp add: enter_word_def Let_def lower_small)
qed

lemma get_word_to_guess_returns:
  assumes idx: "\<forall>w\<in>set words. \<forall>k\<in>set constraints. \<forall>p\<in>set (positions k). valid_index w p"
    and tab: "\<forall>w\<in>set words. set w \<subseteq> dom CHAR_TO_FREQUENCY"
    and cand: "w0 \<in> set words" "\<forall>k\<in>set constraints. is_satisfied k w0 = Inr True"
  shows "\<exists>w. get_word_to_guess it words constraints = Inr w \<and> w \<in> set words"
proof -
  let ?ok = "\<lambda>w. \<forall>k\<in>set constraints. is_satisfied k w = Inr True"
  have fw: "filter_words words constraints = Inr (filter ?ok words)"
    using idx by (rule filter_words_total)
  have ne: "filter ?ok words \<noteq> []"
    using cand by (auto simp: filter_empty_conv)
  have "\<forall>x\<in>set (filter ?ok words). \<exists>k. get_frequency_score it x = Inr k"
    using tab by (simp add: get_frequency_score_total)
  from max_by_key_member[OF ne this] fw show ?thesis
    by (auto simp: get_word_to_guess_def)
qed

lemma won_after_correct:
  "is_correct g \<Longrightarrow> \<not> is_in_progress (p\<lparr>guesses := guesses p @ [g]\<rparr>)"
  by (simp add: is_in_progress_def won_def)

lemma simulate_loop_runs:
  assumes "\<forall>w\<in>set words. length w = WORD_LENGTH \<and> set w \<subseteq> ALL_CHARS"
    and "solution puzzle \<in> set words"
    and "\<forall>k\<in>set constraints. known (solution puzzle) k"
    and "length (guesses puzzle) \<le> MAX_NUM_GUESSES"
  shows "\<exists>final. simulate_loop it words puzzle constraints = Inr final
           \<and> \<not> is_in_progress final
           \<and> length (guesses final) \<le> MAX_NUM_GUESSES
           \<and> solution final = solution puzzle
           \<and> (\<exists>new. guesses final = guesses puzzle @ new)"
  using assms
proof (induction it words puzzle constraints rule: simulate_loop.induct)
  case (1 it words puzzle constraints)
  let ?sol = "solution puzzle"
  show ?case
  proof (cases "is_in_progress puzzle")
    case False
    with "1.prems"(4) show ?thesis
      by (subst simulate_loop.simps) simp
  next
    case True
    then have room: "length (guesses puzzle) < MAX_NUM_GUESSES"
      by (simp add: is_in_progress_def split: if_splits)
    have len_sol: "length ?sol = WORD_LENGTH"
      using "1.prems"(1,2) by blast
    have idx: "\<forall>w\<in>set words. \<forall>k\<in>set constraints. \<forall>p\<in>set (positions k). valid_index w p"
      using "1.prems"(1,3) len_sol
      by (fastforce simp: known_def within_bounds_def valid_index_def)
    have tab: "\<forall>w\<in>set words. set w \<subseteq> dom CHAR_TO_FREQUENCY"
      using "1.prems"(1) by (simp add: dom_CHAR_TO_FREQUENCY)
    have cand: "\<forall>k\<in>set constraints. is_satisfied k ?sol = Inr True"
      using "1.prems"(3) by (simp add: known_def)
    from get_word_to_guess_returns[OF idx tab "1.prems"(2) cand] obtain w
      where get: "get_word_to_guess it words constraints = Inr w" and w: "w \<in> set words"
      by blast
    from w "1.prems"(1) have len_w: "length w = WORD_LENGTH" and small: "set w \<subseteq> ALL_CHARS"
      by auto
    define g where "g = create_from_word w ?sol"
    define puzzle' where "puzzle' = puzzle\<lparr>guesses := guesses puzzle @ [g]\<rparr>"
    have enter: "enter_word puzzle w = (Inr g, puzzle')"
      using enter_word_accepts[OF room len_w small] by (simp add: g_def puzzle'_def)
    show ?thesis
    proof (cases "is_correct g")
      case correct: True
      have "simulate_loop it words puzzle constraints = Inr puzzle'"
        using True get enter correct by (subst simulate_loop.simps) simp
      moreover have "\<not> is_in_progress puzzle'"
        using correct by (simp add: puzzle'_def won_after_correct)
      moreover have "length (guesses puzzle') \<le> MAX_NUM_GUESSES"
        "solution puzzle' = ?sol" "guesses puzzle' = guesses puzzle @ [g]"
        using room by (simp_all add: puzzle'_def)
      ultimately show ?thesis by simp
    next
      case wrong: False
      have "length w = length ?sol" using len_w len_sol by simp
      from update_constraints_sound[OF this "1.prems"(3)] obtain constraints'
        where upd: "update_constraints constraints g (int WORD_LENGTH) = Inr constraints'"
          and inv': "\<forall>k\<in>set constraints'. known ?sol k"
        using len_sol by (auto simp: g_def)
      have sol': "solution puzzle' = ?sol" by (simp add: puzzle'_def)
      have bound': "length (guesses puzzle') \<le> MAX_NUM_GUESSES"
        using room by (simp add: puzzle'_def)
      from "1.IH"[OF True get enter[symmetric] refl wrong upd "1.prems"(1)] "1.prems"(2) inv' sol' bound'
      obtain final where fin: "simulate_loop it words puzzle' constraints' = Inr final"
        "\<not> is_in_progress final" "length (guesses final) \<le> MAX_NUM_GUESSES"
        "solution final = ?sol" and "\<exists>new. guesses final = guesses puzzle' @ new"
        by auto
      then obtain new where ext: "guesses final = guesses puzzle @ (g # new)"
        by (auto simp: puzzle'_def)
      have step: "simulate_loop it words puzzle constraints = simulate_loop it words puzzle' constraints'"
        using True get enter wrong upd by (subst simulate_loop.simps) simp
      with fin ext show ?thesis by auto
    qed
  qed
qed


lemma finished_puzzle:
  assumes "\<not> is_in_progress p" "length (guesses p) \<le> MAX_NUM_GUESSES"
  shows "guesses p \<noteq> []"
    and "won p \<longleftrightarrow> is_correct (last (guesses p))"
    and "\<not> won p \<longleftrightarrow> length (guesses p) = MAX_NUM_GUESSES \<and> \<not> is_correct (last (guesses p))"
  using assms by (auto simp: is_in_progress_def won_def MAX_NUM_GUESSES_def split: if_splits)

text \<open>
  Claim C7.  Take a corpus as the specification describes it: not empty, every word of
  \<^verbatim>\<open>WORD_LENGTH\<close> letters from \<open>a\<close> to \<open>z\<close>.  Whatever word of it
  \<^verbatim>\<open>random.choice\<close> draws as the solution, the loop of \<^verbatim>\<open>simulate\<close>, started with no
  guesses and no constraints, raises nothing and stops; every round appends one guess, and
  the final history has between 1 and \<^verbatim>\<open>MAX_NUM_GUESSES\<close> guesses.  The final puzzle is
  no longer in progress, and it is won exactly when its last guess is all Green, and not won
  exactly when \<^verbatim>\<open>MAX_NUM_GUESSES\<close> guesses were used and the last of them is not all
  Green; \<^verbatim>\<open>simulate\<close> returns \<^verbatim>\<open>(True, number of guesses)\<close> in the first case and
  \<^verbatim>\<open>(False, None)\<close> in the second.
\<close>

theorem puzzle_run_ends_won_or_lost:
  assumes "words \<noteq> []"
    and "\<forall>w\<in>set words. length w = WORD_LENGTH \<and> set w \<subseteq> ALL_CHARS"
  shows "\<exists>final.
           simulate_loop it words \<lparr>solution = words ! (r mod length words), guesses = []\<rparr> [] = Inr final
         \<and> \<not> is_in_progress final
         \<and> 1 \<le> length (guesses final) \<and> length (guesses final) \<le> MAX_NUM_GUESSES
         \<and> (won final \<longleftrightarrow> is_correct (last (guesses final)))
         \<and> (\<not> won final \<longleftrightarrow>
                length (guesses final) = MAX_NUM_GUESSES \<and> \<not> is_correct (last (guesses final)))
         \<and> simulate it words r =
               Inr (if won final then (True, Some (length (guesses final))) else (False, None))"
proof -
  let ?start = "\<lparr>solution = words ! (r mod length words), guesses = []\<rparr>"
  have "solution ?start \<in> set words"
    using assms(1) by simp
  from simulate_loop_runs[OF assms(2) this, where constraints = "[]" and it = it] obtain final
    where run: "simulate_loop it words ?start [] = Inr final"
      and stopped: "\<not> is_in_progress final"
      and le: "length (guesses final) \<le> MAX_NUM_GUESSES"
    by auto
  note fin = finished_puzzle[OF stopped le]
  have "1 \<le> length (guesses final)"
    using fin(1) by (cases "guesses final") simp_all
  moreover have "simulate it words r =
      Inr (if won final then (True, Some (length (guesses final))) else (False, None))"
    using assms(1) run by (simp add: simulate_def)
  ultimately show ?thesis
    using run stopped le fin(2,3) by blast
qed

theorem puzzle_run_ends_won_or_lost_witness:
  "simulate example_iteration [''later'', ''eerie'', ''alert''] 1 = Inr (True, Some 2)
   \<and> (\<exists>final. simulate_loop example_iteration [''later'', ''eerie'', ''alert'']
                  \<lparr>solution = [''later'', ''eerie'', ''alert''] ! (1 mod length [''later'', ''eerie'', ''alert'']),
                   guesses = []\<rparr> [] = Inr final
          \<and> won final \<and> length (guesses final) = 2 \<and> \<not> is_in_progress final)
   \<and> simulate example_iteration [''later'', ''dater'', ''pater'', ''mater'', ''cater'', ''hater'', ''eater''] 6
        = Inr (False, None)
   \<and> (\<exists>final. simulate_loop example_iteration [''later'', ''dater'', ''pater'', ''mater'', ''cater'', ''hater'', ''eater'']
                  \<lparr>solution = [''later'', ''dater'', ''pater'', ''mater'', ''cater'', ''hater'', ''eater'']
                                ! (6 mod length [''later'', ''dater'', ''pater'', ''mater'', ''cater'', ''hater'', ''eater'']),
                   guesses = []\<rparr> [] = Inr final
          \<and> \<not> won final \<and> length (guesses final) = MAX_NUM_GUESSES \<and> \<not> is_in_progress final)"
proof -
  let ?ws = "[''later'', ''eerie'', ''alert'']"
  let ?vs = "[''later'', ''dater'', ''pater'', ''mater'', ''cater'', ''hater'', ''eater'']"
  have w1: "?ws \<noteq> []" by simp
  have w2: "\<forall>w\<in>set ?ws. length w = WORD_LENGTH \<and> set w \<subseteq> ALL_CHARS"
    by (simp add: WORD_LENGTH_def ALL_CHARS_def)
  have w3: "simulate example_iteration ?ws 1 = Inr (True, Some 2)" by code_simp
  have v1: "?vs \<noteq> []" by simp
  have v2: "\<forall>w\<in>set ?vs. length w = WORD_LENGTH \<and> set w \<subseteq> ALL_CHARS"
    by (simp add: WORD_LENGTH_def ALL_CHARS_def)
  have v3: "simulate example_iteration ?vs 6 = Inr (False, None)" by code_simp
  from puzzle_run_ends_won_or_lost [OF w1 w2, where r = 1 and it = example_iteration] w3
  have a: "\<exists>final. simulate_loop example_iteration ?ws \<lparr>solution = ?ws ! (1 mod length ?ws), guesses = []\<rparr> [] = Inr final
          \<and> won final \<and> length (guesses final) = 2 \<and> \<not> is_in_progress final"
    by (auto split: if_splits)
  from puzzle_run_ends_won_or_lost [OF v1 v2, where r = 6 and it = example_iteration] v3
  have b: "\<exists>final. simulate_loop example_iteration ?vs \<lparr>solution = ?vs ! (6 mod length ?vs), guesses = []\<rparr> [] = Inr final
          \<and> \<not> won final \<and> length (guesses final) = MAX_NUM_GUESSES \<and> \<not> is_in_progress final"
    by (auto split: if_splits)
  show ?thesis using w3 v3 a b by blast
qed

section \<open>Properties of the store model\<close>

subsection \<open>Only new objects are written\<close>

lemma untouched_refl: "untouched s s"
  by (simp add: untouched_def)

lemma untouched_new_list:
  "untouched s0 s \<Longrightarrow> untouched s0 (snd (new_list items s))"
  by (simp add: untouched_def new_list_def)

lemma untouched_new_constraint:
  "untouched s0 s \<Longrightarrow> untouched s0 (snd (new_constraint k s))"
  by (simp add: untouched_def new_constraint_def)

lemma untouched_list_append:
  "untouched s0 s \<Longrightarrow> limit s0 \<le> l \<Longrightarrow> untouched s0 (list_append l x s)"
  by (simp add: untouched_def list_append_def)

lemma untouched_append_new:
  "untouched s0 s \<Longrightarrow> limit s0 \<le> l \<Longrightarrow> untouched s0 (append_new l k s)"
  by (simp add: untouched_def append_new_def new_constraint_def list_append_def)

lemma limit_append_new [simp]: "limit (append_new l k s) = Suc (limit s)"
  by (simp add: append_new_def new_constraint_def list_append_def)

lemma limit_list_append [simp]: "limit (list_append l x s) = limit s"
  by (simp add: list_append_def)

lemma without_char_fresh:
  "without_char c l s = (l', s') \<Longrightarrow> l' = limit s \<and> limit s' = Suc (limit s)"
  by (auto simp: without_char_def new_list_def)

lemma untouched_without_char:
  "untouched s0 s \<Longrightarrow> without_char c l s = (l', s') \<Longrightarrow> untouched s0 s'"
  by (auto simp: without_char_def untouched_def new_list_def)

lemma deepcopy_items_frame:
  "untouched s0 s \<Longrightarrow> limit s0 \<le> y \<Longrightarrow>
   untouched s0 (deepcopy_items y items memo s)
   \<and> limit s \<le> limit (deepcopy_items y items memo s)"
proof (induction items arbitrary: memo s)
  case Nil then show ?case by simp
next
  case (Cons a items)
  show ?case
  proof (cases "map_of memo a")
    case (Some b)
    with Cons.IH[of "list_append y b s" memo] Cons.prems show ?thesis
      by (simp add: untouched_list_append)
  next
    case None
    let ?s' = "list_append y (limit s) (snd (new_constraint (constraint_at s a) s))"
    have "untouched s0 ?s'"
      using Cons.prems by (simp add: untouched_list_append untouched_new_constraint)
    from Cons.IH[OF this Cons.prems(2), of "(a, limit s) # memo"] None show ?thesis
      by (simp add: new_constraint_def)
  qed
qed

lemma deepcopy_frame:
  assumes "deepcopy x s = (y, s')"
  shows "untouched s s' \<and> y = limit s \<and> y < limit s'"
proof -
  let ?s1 = "snd (new_list [] s)"
  have y: "y = limit s" and s': "s' = deepcopy_items (limit s) (list_at s x) [] ?s1"
    using assms by (auto simp: deepcopy_def new_list_def)
  have "untouched s ?s1" by (simp add: untouched_new_list untouched_refl)
  from deepcopy_items_frame[OF this, of "limit s" "list_at s x" "[]"]
  show ?thesis unfolding y s' by (simp add: new_list_def)
qed

lemma update_step_store_frame:
  assumes "untouched s0 s" "limit s0 \<le> l" "l < limit s"
    and "update_step_store guess L item l s = (outcome, s')"
  shows "untouched s0 s' \<and> limit s \<le> limit s'
       \<and> (\<forall>l'. outcome = Inr l' \<longrightarrow> limit s0 \<le> l' \<and> l' < limit s')"
proof -
  obtain i ch where item: "item = (i, ch)" by (cases item)
  obtain l2 s2 where wc: "without_char (letter ch) l s = (l2, s2)"
    by (cases "without_char (letter ch) l s")
  note f = without_char_fresh[OF wc]
  have u2: "untouched s0 s2" using untouched_without_char[OF assms(1) wc] .
  have l2: "limit s0 \<le> l2"
    using f assms(2,3) by simp
  show ?thesis
    using assms u2 l2 f wc unfolding item
    by (auto simp: update_step_store_def Let_def untouched_append_new
             split: option.splits Colour.splits if_splits)
qed

lemma update_loop_store_frame:
  assumes "untouched s0 s" "limit s0 \<le> l" "l < limit s"
    and "update_loop_store guess L items l s = (outcome, s')"
  shows "untouched s0 s'
       \<and> (\<forall>l'. outcome = Inr l' \<longrightarrow> limit s0 \<le> l' \<and> l' < limit s')"
  using assms
proof (induction items arbitrary: l s)
  case Nil then show ?case by auto
next
  case (Cons item items)
  obtain o1 s1 where step: "update_step_store guess L item l s = (o1, s1)"
    by (cases "update_step_store guess L item l s")
  note fr = update_step_store_frame[OF Cons.prems(1-3) step]
  show ?case
  proof (cases o1)
    case (Inl e)
    with Cons.prems(4) step fr show ?thesis by simp
  next
    case (Inr l1)
    with Cons.prems(4) step have "update_loop_store guess L items l1 s1 = (outcome, s')"
      by simp
    from Cons.IH[OF _ _ _ this] fr Inr show ?thesis by simp
  qed
qed

lemma update_constraints_store_frame:
  assumes "update_constraints_store constraints guess L s = (outcome, s')"
  shows "untouched s s' \<and> (\<forall>l'. outcome = Inr l' \<longrightarrow> limit s \<le> l' \<and> l' < limit s')"
proof -
  obtain y s1 where dc: "deepcopy constraints s = (y, s1)"
    by (cases "deepcopy constraints s")
  from deepcopy_frame[OF dc] have "untouched s s1" "limit s \<le> y" "y < limit s1" by simp_all
  moreover have "update_loop_store guess L (enumerate 0 (chars guess)) y s1 = (outcome, s')"
    using assms dc by (simp add: update_constraints_store_def)
  ultimately show ?thesis by (rule update_loop_store_frame)
qed

subsection \<open>The store model computes what the function on values computes\<close>

lemma append_new_contents:
  assumes "allocated s l"
  shows "allocated (append_new l k s) l \<and> contents (append_new l k s) l = contents s l @ [k]"
proof -
  have "a \<noteq> limit s" if "a \<in> set (list_at s l)" for a
    using assms that by (auto simp: allocated_def)
  then have "map ((constraint_at s)(limit s := k)) (list_at s l) = map (constraint_at s) (list_at s l)"
    by (intro map_cong) auto
  with assms show ?thesis
    by (auto simp: allocated_def contents_def append_new_def new_constraint_def list_append_def
                   less_Suc_eq)
qed

lemma without_char_contents:
  assumes "allocated s l" and "without_char c l s = (l', s')"
  shows "allocated s' l' \<and> contents s' l' = filter (\<lambda>k. char k \<noteq> c) (contents s l)"
  using assms
  by (auto simp: allocated_def contents_def without_char_def new_list_def filter_map comp_def
                 less_Suc_eq)

lemma update_step_store_refines:
  assumes "allocated s l" and "update_step_store guess L item l s = (outcome, s')"
  shows "case outcome of
           Inl e \<Rightarrow> update_step guess L item (contents s l) = Inl e
         | Inr l' \<Rightarrow> allocated s' l' \<and> update_step guess L item (contents s l) = Inr (contents s' l')"
proof -
  obtain i ch where item: "item = (i, ch)" by (cases item)
  obtain l2 s2 where wc: "without_char (letter ch) l s = (l2, s2)"
    by (cases "without_char (letter ch) l s")
  note w = without_char_contents[OF assms(1) wc]
  note a2 = append_new_contents[of s2 l2]
  note a1 = append_new_contents[OF assms(1)]
  show ?thesis
  proof (cases "colour ch")
    case None
    with assms(2) show ?thesis by (auto simp: item update_step_store_def update_step_def)
  next
    case (Some col)
    show ?thesis
    proof (cases col)
      case GREEN
      with Some assms(2) wc w a2 show ?thesis
        by (auto simp: item update_step_store_def update_step_def)
    next
      case YELLOW
      let ?k1 = "\<lparr>char = letter ch, positions = filter (\<lambda>j. j \<noteq> int i) [0..L - 1],
                  type = IN_SOME_POSITION\<rparr>"
      from a1[of ?k1] have "allocated (append_new l ?k1 s) l" by simp
      note b = append_new_contents[OF this]
      from Some YELLOW assms(2) a1[of ?k1] b show ?thesis
        by (auto simp: item update_step_store_def update_step_def Let_def)
    next
      case GREY
      with Some assms(2) wc w a2 a1 show ?thesis
        by (auto simp: item update_step_store_def update_step_def split: if_splits)
    qed
  qed
qed

lemma update_loop_store_refines:
  assumes "allocated s l" and "update_loop_store guess L items l s = (outcome, s')"
  shows "case outcome of
           Inl e \<Rightarrow> update_loop guess L items (contents s l) = Inl e
         | Inr l' \<Rightarrow> allocated s' l' \<and> update_loop guess L items (contents s l) = Inr (contents s' l')"
  using assms
proof (induction items arbitrary: l s)
  case Nil then show ?case by auto
next
  case (Cons item items)
  obtain o1 s1 where step: "update_step_store guess L item l s = (o1, s1)"
    by (cases "update_step_store guess L item l s")
  note r = update_step_store_refines[OF Cons.prems(1) step]
  show ?case
  proof (cases o1)
    case (Inl e)
    with Cons.prems(2) step r show ?thesis by auto
  next
    case (Inr l1)
    with Cons.prems(2) step have "update_loop_store guess L items l1 s1 = (outcome, s')"
      by simp
    from Cons.IH[OF _ this] r Inr show ?thesis by (auto split: sum.splits)
  qed
qed

lemma deepcopy_items_contents:
  assumes "allocated s y"
    and "\<forall>a\<in>set items. a < limit s"
    and "\<forall>(a, b)\<in>set memo. a < limit s \<and> b < limit s \<and> constraint_at s b = constraint_at s a"
    and "y \<notin> set items"
  shows "allocated (deepcopy_items y items memo s) y
       \<and> contents (deepcopy_items y items memo s) y = contents s y @ map (constraint_at s) items"
  using assms
proof (induction items arbitrary: memo s)
  case Nil then show ?case by simp
next
  case (Cons a items)
  have stable: "map ((constraint_at s)(limit s := k)) xs = map (constraint_at s) xs"
    if "\<forall>x\<in>set xs. x < limit s" for xs k
    using that by (intro map_cong) auto
  show ?case
  proof (cases "map_of memo a")
    case (Some b)
    then have "(a, b) \<in> set memo" by (rule map_of_SomeD)
    with Cons.prems(3) have b: "b < limit s" "constraint_at s b = constraint_at s a" by auto
    let ?s' = "list_append y b s"
    have "allocated ?s' y" "contents ?s' y = contents s y @ [constraint_at s a]"
      using Cons.prems(1) b by (auto simp: allocated_def contents_def list_append_def)
    moreover have "\<forall>a\<in>set items. a < limit ?s'" using Cons.prems(2) by simp
    moreover have "\<forall>(a, b)\<in>set memo. a < limit ?s' \<and> b < limit ?s'
                     \<and> constraint_at ?s' b = constraint_at ?s' a"
      using Cons.prems(3) by (simp add: list_append_def)
    moreover have "y \<notin> set items" using Cons.prems(4) by simp
    ultimately show ?thesis
      using Cons.IH[of ?s' memo] Some by (simp add: list_append_def)
  next
    case None
    let ?b = "limit s"
    let ?s' = "list_append y ?b (snd (new_constraint (constraint_at s a) s))"
    have a: "a < limit s" using Cons.prems(2) by simp
    have al: "allocated ?s' y"
      using Cons.prems(1) by (auto simp: allocated_def list_append_def new_constraint_def less_Suc_eq)
    have co: "contents ?s' y = contents s y @ [constraint_at s a]"
      using Cons.prems(1) stable[of "list_at s y"]
      by (auto simp: allocated_def contents_def list_append_def new_constraint_def)
    have it: "\<forall>a\<in>set items. a < limit ?s'"
      using Cons.prems(2) by (simp add: new_constraint_def less_Suc_eq)
    have me: "\<forall>(a, b)\<in>set ((a, ?b) # memo). a < limit ?s' \<and> b < limit ?s'
                     \<and> constraint_at ?s' b = constraint_at ?s' a"
      using Cons.prems(3) a by (auto simp: list_append_def new_constraint_def less_Suc_eq)
    have rest: "map (constraint_at ?s') items = map (constraint_at s) items"
      using stable[of items] Cons.prems(2) by (simp add: list_append_def new_constraint_def)
    have "y \<notin> set items" using Cons.prems(4) by simp
    from Cons.IH[OF al it me this] co rest None show ?thesis
      by (simp add: new_constraint_def)
  qed
qed

lemma deepcopy_contents:
  assumes "allocated s x" and "deepcopy x s = (y, s')"
  shows "allocated s' y \<and> contents s' y = contents s x"
proof -
  let ?s1 = "snd (new_list [] s)"
  have y: "y = limit s" and s': "s' = deepcopy_items (limit s) (list_at s x) [] ?s1"
    using assms(2) by (auto simp: deepcopy_def new_list_def)
  have 1: "allocated ?s1 (limit s)" by (simp add: allocated_def new_list_def)
  have 2: "\<forall>a\<in>set (list_at s x). a < limit ?s1"
    using assms(1) by (auto simp: allocated_def new_list_def)
  have 3: "\<forall>(a, b)\<in>set []. a < limit ?s1 \<and> b < limit ?s1
             \<and> constraint_at ?s1 b = constraint_at ?s1 a" by simp
  have 4: "limit s \<notin> set (list_at s x)"
    using assms(1) by (auto simp: allocated_def)
  have "contents ?s1 (limit s) = []" "map (constraint_at ?s1) (list_at s x) = contents s x"
    by (simp_all add: contents_def new_list_def)
  with deepcopy_items_contents[OF 1 2 3 4] show ?thesis
    unfolding y s' by simp
qed

lemma update_constraints_store_refines:
  assumes "allocated s constraints"
    and "update_constraints_store constraints guess L s = (outcome, s')"
  shows "(case outcome of Inl e \<Rightarrow> Inl e | Inr l \<Rightarrow> Inr (contents s' l))
           = update_constraints (contents s constraints) guess L"
proof -
  obtain y s1 where dc: "deepcopy constraints s = (y, s1)"
    by (cases "deepcopy constraints s")
  note d = deepcopy_contents[OF assms(1) dc]
  have "update_loop_store guess L (enumerate 0 (chars guess)) y s1 = (outcome, s')"
    using assms(2) dc by (simp add: update_constraints_store_def)
  from update_loop_store_refines[OF _ this] d show ?thesis
    by (auto simp: update_constraints_def split: sum.splits)
qed

text \<open>
  Claim C6.  Whatever \<^verbatim>\<open>update_constraints\<close> is called with and whether it returns or
  raises: every list object and every \<^verbatim>\<open>Constraint\<close> object that was in use before the
  call is the same after it, and a returned list is an object created during the call.
  When the argument is a list in use whose elements are in use, its value after the call is
  its value before, and the value of the returned list (or the exception) is what
  \<^verbatim>\<open>update_constraints\<close> computes on values.
\<close>

theorem update_constraints_leaves_input:
  assumes "update_constraints_store constraints guess L s = (outcome, s')"
  shows "(\<forall>a<limit s. list_at s' a = list_at s a \<and> constraint_at s' a = constraint_at s a)
       \<and> (\<forall>new. outcome = Inr new \<longrightarrow> limit s \<le> new \<and> new < limit s')
       \<and> (allocated s constraints \<longrightarrow>
            contents s' constraints = contents s constraints
          \<and> (case outcome of Inl e \<Rightarrow> Inl e | Inr new \<Rightarrow> Inr (contents s' new))
              = update_constraints (contents s constraints) guess L)"
proof -
  from update_constraints_store_frame[OF assms]
  have fr: "untouched s s'"
    and new: "\<forall>new. outcome = Inr new \<longrightarrow> limit s \<le> new \<and> new < limit s'"
    by simp_all
  from fr have same: "\<forall>a<limit s. list_at s' a = list_at s a \<and> constraint_at s' a = constraint_at s a"
    by (simp add: untouched_def)
  have "contents s' constraints = contents s constraints" if "allocated s constraints"
    using that same by (auto simp: contents_def allocated_def)
  with same new update_constraints_store_refines[OF _ assms] show ?thesis
    by blast
qed

theorem update_constraints_leaves_input_witness:
  "fst (update_constraints_store 0 (create_from_word ''so'' ''to'') 2 example_store) = Inr 8
   \<and> list_at (snd (update_constraints_store 0 (create_from_word ''so'' ''to'') 2 example_store)) 0
       = [1, 2, 1]
   \<and> contents (snd (update_constraints_store 0 (create_from_word ''so'' ''to'') 2 example_store)) 0
       = [\<lparr>char = CHR ''o'', positions = [3], type = NOT_IN_POSITIONS\<rparr>,
          \<lparr>char = CHR ''s'', positions = [4], type = NOT_IN_POSITIONS\<rparr>,
          \<lparr>char = CHR ''o'', positions = [3], type = NOT_IN_POSITIONS\<rparr>]
   \<and> contents (snd (update_constraints_store 0 (create_from_word ''so'' ''to'') 2 example_store)) 8
       = [\<lparr>char = CHR ''s'', positions = [0, 1], type = NOT_IN_POSITIONS\<rparr>,
          \<lparr>char = CHR ''o'', positions = [1], type = IN_SOME_POSITION\<rparr>]"
proof -
  let ?g = "create_from_word ''so'' ''to''"
  let ?run = "update_constraints_store 0 ?g 2 example_store"
  have run: "?run = (fst ?run, snd ?run)" by simp
  have out: "fst ?run = Inr 8" by code_simp
  have al: "allocated example_store 0"
    by (simp add: allocated_def example_store_def)
  have lim: "0 < limit example_store" by (simp add: example_store_def)
  have old: "list_at example_store 0 = [1, 2, 1]"
    "contents example_store 0
       = [\<lparr>char = CHR ''o'', positions = [3], type = NOT_IN_POSITIONS\<rparr>,
          \<lparr>char = CHR ''s'', positions = [4], type = NOT_IN_POSITIONS\<rparr>,
          \<lparr>char = CHR ''o'', positions = [3], type = NOT_IN_POSITIONS\<rparr>]"
    by (simp_all add: contents_def example_store_def)
  have val: "update_constraints
               [\<lparr>char = CHR ''o'', positions = [3], type = NOT_IN_POSITIONS\<rparr>,
                \<lparr>char = CHR ''s'', positions = [4], type = NOT_IN_POSITIONS\<rparr>,
                \<lparr>char = CHR ''o'', positions = [3], type = NOT_IN_POSITIONS\<rparr>] ?g 2
       = Inr [\<lparr>char = CHR ''s'', positions = [0, 1], type = NOT_IN_POSITIONS\<rparr>,
              \<lparr>char = CHR ''o'', positions = [1], type = IN_SOME_POSITION\<rparr>]"
    by code_simp
  from update_constraints_leaves_input [OF run] al lim
  have "list_at (snd ?run) 0 = list_at example_store 0"
    and "contents (snd ?run) 0 = contents example_store 0"
    and "(case fst ?run of Inl e \<Rightarrow> Inl e | Inr new \<Rightarrow> Inr (contents (snd ?run) new))
           = update_constraints (contents example_store 0) ?g 2"
    by blast+
  then show ?thesis
    unfolding out old val by simp
qed

end
